theory Spec2Isabelle
  imports Main "HOL-Library.Word" "HOL-Library.Multiset"
begin

section \<open>Machine types and collaborators\<close>

text \<open>
  The coordination layer of \<^verbatim>\<open>cluster.cpp\<close> is embedded function by function. Every
  \<^verbatim>\<open>uint64_t\<close> and \<^verbatim>\<open>size_t\<close> is a 64-bit word, so \<open>+\<close>, \<open>-\<close> and \<open>*\<close> wrap as in the source
  and \<open>div\<close> is the unsigned division. The transport (MPI), the thread pool, the
  transposition table and the clock are collaborators: what they deliver is an argument of
  the function that consumes it.
\<close>

type_synonym u64 = "64 word"

datatype error = DivisionByZero | AssertionFailed | LengthError | TransportError

text \<open>
  Modelled from the spec: \<^verbatim>\<open>types.h\<close> is not part of the sources, and with it the constant
  \<^verbatim>\<open>ONE_PLY\<close>. Depths are measured in plies, so one ply is the unit of \<^verbatim>\<open>Depth\<close>.
\<close>

definition ONE_PLY :: int where
  "ONE_PLY = 1"

text \<open>Division of two C++ \<^verbatim>\<open>int\<close>s truncates towards zero and is undefined on a zero divisor.\<close>

definition int_div :: "int \<Rightarrow> int \<Rightarrow> error + int" where
  "int_div a b = (if b = 0 then Inl DivisionByZero else Inr (sgn a * sgn b * (\<bar>a\<bar> div \<bar>b\<bar>)))"

text \<open>Division of two \<^verbatim>\<open>uint64_t\<close>; a signed operand has been converted to unsigned before.\<close>

definition u64_div :: "u64 \<Rightarrow> u64 \<Rightarrow> error + u64" where
  "u64_div a b = (if b = 0 then Inl DivisionByZero else Inr (a div b))"

section \<open>The signal loop\<close>

text \<open>
  \<^verbatim>\<open>enum Signals { SIG_NODES, SIG_STOP, SIG_TB, SIG_TTS, SIG_NB }\<close> indexes the two arrays
  \<^verbatim>\<open>signalsSend\<close> and \<^verbatim>\<open>signalsRecv\<close>; the source only ever indexes them with these four
  constants, so an array is a record of its four cells.
\<close>

record signals =
  SIG_NODES :: u64
  SIG_STOP :: u64
  SIG_TB :: u64
  SIG_TTS :: u64

definition signals_zero :: signals where
  "signals_zero = \<lparr>SIG_NODES = 0, SIG_STOP = 0, SIG_TB = 0, SIG_TTS = 0\<rparr>"

text \<open>\<^verbatim>\<open>MPI_SUM\<close> on \<^verbatim>\<open>MPI_UINT64_T\<close>, cell by cell.\<close>

definition signals_sum :: "signals \<Rightarrow> signals \<Rightarrow> signals" where
  "signals_sum a b =
     \<lparr>SIG_NODES = SIG_NODES a + SIG_NODES b, SIG_STOP = SIG_STOP a + SIG_STOP b,
      SIG_TB = SIG_TB a + SIG_TB b, SIG_TTS = SIG_TTS a + SIG_TTS b\<rparr>"

text \<open>The four communicators duplicated from the world communicator in \<^verbatim>\<open>init\<close>.\<close>

datatype comm = InputComm | TTComm | MoveComm | signalsComm

text \<open>
  The transport calls of the transposition-table exchange. A point-to-point call carries the
  index of the buffer in \<^verbatim>\<open>TTSendRecvBuffs\<close>, the number of entries of that buffer, the peer
  rank, the tag and the communicator.
\<close>

datatype mpi_call =
    MPI_Testall
  | MPI_Irecv nat nat nat nat comm
  | MPI_Isend nat nat nat nat comm

text \<open>
  An \<^verbatim>\<open>MPI_Request\<close>: null, or an outstanding operation. For \<^verbatim>\<open>reqSignals\<close> the operation
  is the all-reduce of the signal loop, kept as the contribution of this rank that was handed
  to the transport when it was posted; for \<^verbatim>\<open>reqsTTSendRecv\<close> it is the point-to-point call.
\<close>

datatype 'a request = MPI_REQUEST_NULL | Outstanding 'a

text \<open>
  The variables of namespace \<^verbatim>\<open>Cluster\<close> that the signal loop and the accessors touch, and
  the thread pool \<^verbatim>\<open>Threads\<close> as far as this file reads and writes it.
\<close>

record Cluster =
  reqSignals :: "signals request"
  signalsCallCounter :: u64
  signalsSend :: signals
  signalsRecv :: signals
  nodesSearchedOthers :: u64
  tbHitsOthers :: u64
  TTsavesOthers :: u64
  stopSignalsPosted :: u64
  sendRecvPosted :: u64
  Threads_nodes_searched :: u64
  Threads_tb_hits :: u64
  Threads_TT_saves :: u64
  Threads_stop :: bool

text \<open>The static initialisers of the file, over a thread pool with the given totals.\<close>

definition static_init :: "u64 \<Rightarrow> u64 \<Rightarrow> u64 \<Rightarrow> bool \<Rightarrow> Cluster" where
  "static_init n t s b =
     \<lparr>reqSignals = MPI_REQUEST_NULL, signalsCallCounter = 0,
      signalsSend = signals_zero, signalsRecv = signals_zero,
      nodesSearchedOthers = 0, tbHitsOthers = 0, TTsavesOthers = 0,
      stopSignalsPosted = 0, sendRecvPosted = 0,
      Threads_nodes_searched = n, Threads_tb_hits = t, Threads_TT_saves = s,
      Threads_stop = b\<rparr>"

text \<open>
  \<^verbatim>\<open>signals_send\<close>: snapshot the pool totals, post the non-blocking sum all-reduce of
  \<^verbatim>\<open>signalsSend\<close> into \<^verbatim>\<open>signalsRecv\<close>, count the call.
\<close>

definition signals_send :: "Cluster \<Rightarrow> Cluster" where
  "signals_send st =
     (let snd_buf = \<lparr>SIG_NODES = Threads_nodes_searched st,
                     SIG_STOP = (if Threads_stop st then 1 else 0),
                     SIG_TB = Threads_tb_hits st,
                     SIG_TTS = Threads_TT_saves st\<rparr>
      in st\<lparr>signalsSend := snd_buf,
            reqSignals := Outstanding snd_buf,
            signalsCallCounter := signalsCallCounter st + 1\<rparr>)"

definition signals_process :: "Cluster \<Rightarrow> Cluster" where
  "signals_process st =
     st\<lparr>nodesSearchedOthers := SIG_NODES (signalsRecv st) - SIG_NODES (signalsSend st),
        tbHitsOthers := SIG_TB (signalsRecv st) - SIG_TB (signalsSend st),
        TTsavesOthers := SIG_TTS (signalsRecv st) - SIG_TTS (signalsSend st),
        stopSignalsPosted := SIG_STOP (signalsRecv st),
        Threads_stop := (if SIG_STOP (signalsRecv st) > 0 then True else Threads_stop st)\<rparr>"

definition signals_init :: "Cluster \<Rightarrow> Cluster" where
  "signals_init st =
     st\<lparr>stopSignalsPosted := 0, tbHitsOthers := 0, TTsavesOthers := 0,
        nodesSearchedOthers := 0, signalsCallCounter := 0, sendRecvPosted := 0,
        signalsSend := signals_zero, signalsRecv := signals_zero\<rparr>"

text \<open>
  Completion of the outstanding all-reduce: the receive array becomes the sum of this rank's
  contribution and \<open>others\<close>, the sum of what the other ranks contributed; the handle
  becomes null. On a null handle nothing happens.
\<close>

definition complete :: "signals \<Rightarrow> Cluster \<Rightarrow> Cluster" where
  "complete others st =
     (case reqSignals st of
        MPI_REQUEST_NULL \<Rightarrow> st
      | Outstanding mine \<Rightarrow>
          st\<lparr>signalsRecv := signals_sum mine others, reqSignals := MPI_REQUEST_NULL\<rparr>)"

text \<open>
  \<^verbatim>\<open>MPI_Test(&reqSignals, &flag, ..)\<close>: a null handle tests true; an outstanding one tests
  true exactly when the transport has the result, \<open>arrival = Some others\<close>.
\<close>

definition MPI_Test :: "signals option \<Rightarrow> Cluster \<Rightarrow> bool \<times> Cluster" where
  "MPI_Test arrival st =
     (case reqSignals st of
        MPI_REQUEST_NULL \<Rightarrow> (True, st)
      | Outstanding mine \<Rightarrow>
          (case arrival of None \<Rightarrow> (False, st) | Some others \<Rightarrow> (True, complete others st)))"

text \<open>\<^verbatim>\<open>MPI_Wait(&reqSignals, ..)\<close> returns once the result, built from \<open>others\<close>, is there.\<close>

definition MPI_Wait :: "signals \<Rightarrow> Cluster \<Rightarrow> Cluster" where
  "MPI_Wait others st = complete others st"

definition signals_poll :: "signals option \<Rightarrow> Cluster \<Rightarrow> Cluster" where
  "signals_poll arrival st =
     (case MPI_Test arrival st of
        (flag, st1) \<Rightarrow> if flag then signals_send (signals_process st1) else st1)"

text \<open>
  The loop \<^verbatim>\<open>while (stopSignalsPosted < uint64_t(size())) signals_poll();\<close> of
  \<^verbatim>\<open>signals_sync\<close>. The list holds what the transport answers to each successive test; the
  loop has not returned (\<open>None\<close>) when the answers are used up with the condition still true.
\<close>

fun signals_sync_loop :: "nat \<Rightarrow> signals option list \<Rightarrow> Cluster \<Rightarrow> Cluster option" where
  "signals_sync_loop world_size [] st =
     (if stopSignalsPosted st < of_nat world_size then None else Some st)"
| "signals_sync_loop world_size (a # as) st =
     (if stopSignalsPosted st < of_nat world_size
      then signals_sync_loop world_size as (signals_poll a st)
      else Some st)"

text \<open>
  \<^verbatim>\<open>MPI_Allreduce(&signalsCallCounter, &globalCounter, 1, MPI_UINT64_T, MPI_MAX, MoveComm)\<close>:
  the maximum of the own counter and the counters the other ranks contribute.
\<close>

definition Allreduce_MAX :: "u64 \<Rightarrow> u64 list \<Rightarrow> u64" where
  "Allreduce_MAX mine peers = fold max peers mine"

text \<open>
  The part of \<^verbatim>\<open>signals_sync\<close> after the loop. \<open>w1\<close> and \<open>w2\<close> are what the other ranks
  contributed to the all-reduce that the first and the final \<^verbatim>\<open>MPI_Wait\<close> complete.
\<close>

definition signals_sync_finish ::
  "u64 list \<Rightarrow> signals \<Rightarrow> signals \<Rightarrow> Cluster \<Rightarrow> error + Cluster" where
  "signals_sync_finish peers w1 w2 st =
     (let globalCounter = Allreduce_MAX (signalsCallCounter st) peers;
          st1 = (if signalsCallCounter st < globalCounter
                 then signals_send (MPI_Wait w1 st) else st)
      in if signalsCallCounter st1 = globalCounter
         then Inr (signals_process (MPI_Wait w2 st1))
         else Inl AssertionFailed)"

definition signals_sync ::
  "nat \<Rightarrow> signals option list \<Rightarrow> u64 list \<Rightarrow> signals \<Rightarrow> signals \<Rightarrow> Cluster
     \<Rightarrow> (error + Cluster) option" where
  "signals_sync world_size answers peers w1 w2 st =
     (case signals_sync_loop world_size answers st of
        None \<Rightarrow> None
      | Some st1 \<Rightarrow> Some (signals_sync_finish peers w1 w2 st1))"

text \<open>
  The counters the other ranks contribute to the all-reduce of \<^verbatim>\<open>signalsCallCounter\<close> seen
  from rank \<open>i\<close>, when \<open>sts\<close> lists the state of every rank in rank order.
\<close>

definition peers_of :: "nat \<Rightarrow> Cluster list \<Rightarrow> u64 list" where
  "peers_of i sts = map signalsCallCounter (take i sts @ drop (Suc i) sts)"

text \<open>
  The states of a process that runs alone (\<^verbatim>\<open>size() == 1\<close>). It starts from the static
  initialisers; the search changes the totals of the thread pool and the stop flag at any
  time, and \<^verbatim>\<open>save\<close> the counter \<^verbatim>\<open>sendRecvPosted\<close>; \<^verbatim>\<open>signals_init\<close> runs at the start of a
  search, when no all-reduce is outstanding (at program start, or after the \<^verbatim>\<open>signals_sync\<close>
  that ended the previous search); \<^verbatim>\<open>signals_poll\<close> and \<^verbatim>\<open>signals_sync\<close> run at any time. With
  one rank no other rank contributes to a reduction: the others' sum is zero and there are
  no peer counters.
\<close>

inductive single_rank :: "Cluster \<Rightarrow> bool" where
  start: "single_rank (static_init n t s b)"
| search: "single_rank st \<Longrightarrow>
     single_rank (st\<lparr>Threads_nodes_searched := n, Threads_tb_hits := t,
                     Threads_TT_saves := s, Threads_stop := b, sendRecvPosted := c\<rparr>)"
| init: "single_rank st \<Longrightarrow> reqSignals st = MPI_REQUEST_NULL \<Longrightarrow> single_rank (signals_init st)"
| poll: "single_rank st \<Longrightarrow> arrival = None \<or> arrival = Some signals_zero \<Longrightarrow>
     single_rank (signals_poll arrival st)"
| sync: "single_rank st \<Longrightarrow> list_all (\<lambda>a. a = None \<or> a = Some signals_zero) answers \<Longrightarrow>
     signals_sync 1 answers [] signals_zero signals_zero st = Some (Inr st') \<Longrightarrow>
     single_rank st'"

section \<open>Accessors and diagnostics\<close>

definition nodes_searched :: "Cluster \<Rightarrow> u64" where
  "nodes_searched st = nodesSearchedOthers st + Threads_nodes_searched st"

definition tb_hits :: "Cluster \<Rightarrow> u64" where
  "tb_hits st = tbHitsOthers st + Threads_tb_hits st"

definition TT_saves :: "Cluster \<Rightarrow> u64" where
  "TT_saves st = TTsavesOthers st + Threads_TT_saves st"

text \<open>The three functions of the branch compiled without \<^verbatim>\<open>USE_MPI\<close>.\<close>

definition nodes_searched_standalone :: "Cluster \<Rightarrow> u64" where
  "nodes_searched_standalone st = Threads_nodes_searched st"

definition tb_hits_standalone :: "Cluster \<Rightarrow> u64" where
  "tb_hits_standalone st = Threads_tb_hits st"

definition TT_saves_standalone :: "Cluster \<Rightarrow> u64" where
  "TT_saves_standalone st = Threads_TT_saves st"

text \<open>
  The numbers \<^verbatim>\<open>cluster_info\<close> prints, in the order of the line. \<open>t\<close> is the value of
  \<^verbatim>\<open>Time.elapsed()\<close>, a signed 64-bit \<^verbatim>\<open>TimePoint\<close>; in each quotient the dividend is unsigned,
  so \<^verbatim>\<open>elapsed\<close> is converted to unsigned, which leaves the bits as they are.
\<close>

record info_line =
  info_depth :: int
  info_signals :: u64
  info_sps :: u64
  info_sendRecvs :: u64
  info_srpps :: u64
  info_TTSaves :: u64
  info_TTSavesps :: u64

definition cluster_info :: "nat \<Rightarrow> nat \<Rightarrow> u64 \<Rightarrow> int \<Rightarrow> Cluster \<Rightarrow> error + info_line" where
  "cluster_info TTCacheSize world_size t depth st =
     (let elapsed = t + 1;
          TTSaves = TT_saves st
      in case int_div depth ONE_PLY of Inl e \<Rightarrow> Inl e | Inr d \<Rightarrow>
         (case u64_div (signalsCallCounter st * 1000) elapsed of Inl e \<Rightarrow> Inl e | Inr sps \<Rightarrow>
         (case u64_div (of_nat TTCacheSize * of_nat world_size * sendRecvPosted st * 1000) elapsed of
            Inl e \<Rightarrow> Inl e | Inr srpps \<Rightarrow>
         (case u64_div (TTSaves * 1000) elapsed of Inl e \<Rightarrow> Inl e | Inr TTSavesps \<Rightarrow>
            Inr \<lparr>info_depth = d, info_signals = signalsCallCounter st, info_sps = sps,
                 info_sendRecvs = sendRecvPosted st, info_srpps = srpps,
                 info_TTSaves = TTSaves, info_TTSavesps = TTSavesps\<rparr>))))"

section \<open>The per-thread cache of transposition-table entries\<close>

text \<open>
  Modelled from the spec: \<^verbatim>\<open>tt.h\<close> and \<^verbatim>\<open>cluster.h\<close> are not part of the sources. A
  \<^verbatim>\<open>KeyedTTEntry\<close> is the pair of a 64-bit key and an entry that exposes \<^verbatim>\<open>depth\<close>, \<^verbatim>\<open>value\<close>,
  \<^verbatim>\<open>eval\<close>, \<^verbatim>\<open>move\<close>, \<^verbatim>\<open>bound\<close> and \<^verbatim>\<open>pv_hit\<close>; the source reads it through \<^verbatim>\<open>first\<close> and
  \<^verbatim>\<open>second\<close>.
\<close>

record TTEntry =
  tte_move :: int
  tte_value :: int
  tte_eval :: int
  tte_depth :: int
  tte_pv_hit :: bool
  tte_bound :: int

type_synonym KeyedTTEntry = "u64 \<times> TTEntry"

text \<open>\<^verbatim>\<open>KeyedTTEntry()\<close>, the value-initialised pair: every member is zero.\<close>

definition KeyedTTEntry_init :: KeyedTTEntry where
  "KeyedTTEntry_init =
     (0, \<lparr>tte_move = 0, tte_value = 0, tte_eval = 0, tte_depth = 0, tte_pv_hit = False,
          tte_bound = 0\<rparr>)"

text \<open>
  The comparison of \<^verbatim>\<open>ClusterCache::replace\<close>:
  \<^verbatim>\<open>lhs.second.depth() > rhs.second.depth()\<close>.
\<close>

definition compare :: "KeyedTTEntry \<Rightarrow> KeyedTTEntry \<Rightarrow> bool" where
  "compare lhs rhs \<longleftrightarrow> tte_depth (snd lhs) > tte_depth (snd rhs)"

text \<open>
  \<^verbatim>\<open>std::push_heap\<close> and \<^verbatim>\<open>std::pop_heap\<close> belong to the C++ library. The standard fixes
  their contract: on a range that is a heap with respect to the comparison \<open>cmp\<close> (no
  element compares below its child at \<open>2 i + 1\<close> or \<open>2 i + 2\<close>), \<^verbatim>\<open>pop_heap\<close> swaps the first
  with the last element and makes the range without the last a heap; on a range that is a
  heap without its last element, \<^verbatim>\<open>push_heap\<close> makes the whole range a heap. The standard
  leaves the arrangement of the result open beyond that. They are embedded as the array
  algorithms that do this, sifting the last element up and the first element down; the
  properties proved of \<^verbatim>\<open>replace\<close> below rest on the contract alone (which entries are held,
  and that they form a heap).
\<close>

function sift_up :: "('a \<Rightarrow> 'a \<Rightarrow> bool) \<Rightarrow> 'a list \<Rightarrow> nat \<Rightarrow> 'a list" where
  "sift_up cmp xs i =
     (if i = 0 then xs
      else let p = (i - 1) div 2
           in if cmp (xs ! p) (xs ! i) then sift_up cmp (xs[p := xs ! i, i := xs ! p]) p
              else xs)"
  by pat_completeness auto
termination
  by (relation "measure (\<lambda>(cmp, xs, i). i)") auto

declare sift_up.simps [simp del]

definition push_heap :: "('a \<Rightarrow> 'a \<Rightarrow> bool) \<Rightarrow> 'a list \<Rightarrow> 'a list" where
  "push_heap cmp xs = (if xs = [] then xs else sift_up cmp xs (length xs - 1))"

function sift_down :: "('a \<Rightarrow> 'a \<Rightarrow> bool) \<Rightarrow> nat \<Rightarrow> 'a list \<Rightarrow> nat \<Rightarrow> 'a list" where
  "sift_down cmp n xs i =
     (let l = 2 * i + 1; r = 2 * i + 2
      in if n \<le> l then xs
         else let c = (if r < n \<and> cmp (xs ! l) (xs ! r) then r else l)
              in if cmp (xs ! i) (xs ! c)
                 then sift_down cmp n (xs[i := xs ! c, c := xs ! i]) c
                 else xs)"
  by pat_completeness auto
termination
  by (relation "measure (\<lambda>(cmp, n, xs, i). n - i)") (auto simp: Let_def)

declare sift_down.simps [simp del]

definition pop_heap :: "('a \<Rightarrow> 'a \<Rightarrow> bool) \<Rightarrow> 'a list \<Rightarrow> 'a list" where
  "pop_heap cmp xs =
     (if length xs \<le> 1 then xs
      else let n = length xs - 1
           in sift_down cmp n (xs[0 := xs ! n, n := xs ! 0]) 0)"

text \<open>The heap property of the standard, with respect to \<open>cmp\<close>.\<close>

definition is_heap :: "('a \<Rightarrow> 'a \<Rightarrow> bool) \<Rightarrow> 'a list \<Rightarrow> bool" where
  "is_heap cmp xs \<longleftrightarrow> list_all (\<lambda>i. \<not> cmp (xs ! ((i - 1) div 2)) (xs ! i)) [1..<length xs]"

text \<open>
  Modelled from the spec: the class \<^verbatim>\<open>ClusterCache\<close> is declared in \<^verbatim>\<open>cluster.h\<close>. Its
  members are the ones its member functions use: the heap \<^verbatim>\<open>buffer\<close> of \<^verbatim>\<open>TTCacheSize\<close>
  entries, \<^verbatim>\<open>TTCacheCounter\<close>, the two buffers \<^verbatim>\<open>TTSendRecvBuffs\<close>, the two handles
  \<^verbatim>\<open>reqsTTSendRecv\<close>, and the counter \<^verbatim>\<open>sendRecvPosted\<close> that selects the active buffer by
  parity. The last one is the counter of this cache (\<open>this_sendRecvPosted\<close> here); the
  variable \<^verbatim>\<open>sendRecvPosted\<close> of namespace \<^verbatim>\<open>Cluster\<close>, which \<^verbatim>\<open>save\<close> increments with the
  remark that it duplicates the thread-local counters, is the field of \<open>Cluster\<close>.
\<close>

record ClusterCache =
  buffer :: "KeyedTTEntry list"
  TTCacheCounter :: u64
  TTSendRecvBuffs :: "KeyedTTEntry list list"
  reqsTTSendRecv :: "mpi_call request list"
  this_sendRecvPosted :: u64

text \<open>
  The constructor \<^verbatim>\<open>ClusterCache::ClusterCache()\<close>: both buffers are resized to
  \<^verbatim>\<open>TTCacheSize * size()\<close> and filled with \<^verbatim>\<open>KeyedTTEntry()\<close>, the handles are null and the two
  counters zero. It does not mention \<^verbatim>\<open>buffer\<close>, whose cells are therefore default-constructed
  pairs, that is \<^verbatim>\<open>KeyedTTEntry()\<close> again.
\<close>

definition ClusterCache_init :: "nat \<Rightarrow> nat \<Rightarrow> ClusterCache" where
  "ClusterCache_init TTCacheSize world_size =
     \<lparr>buffer = replicate TTCacheSize KeyedTTEntry_init,
      TTCacheCounter = 0,
      TTSendRecvBuffs = [replicate (TTCacheSize * world_size) KeyedTTEntry_init,
                         replicate (TTCacheSize * world_size) KeyedTTEntry_init],
      reqsTTSendRecv = [MPI_REQUEST_NULL, MPI_REQUEST_NULL],
      this_sendRecvPosted = 0\<rparr>"

text \<open>
  \<^verbatim>\<open>ClusterCache::replace\<close>. \<^verbatim>\<open>buffer.front()\<close> and \<^verbatim>\<open>buffer.back() = value\<close> are the first
  and the last cell of the array; they exist when \<^verbatim>\<open>TTCacheSize\<close> is positive.
\<close>

definition replace :: "KeyedTTEntry \<Rightarrow> ClusterCache \<Rightarrow> bool \<times> ClusterCache" where
  "replace v cc =
     (let cc1 = cc\<lparr>TTCacheCounter := TTCacheCounter cc + 1\<rparr>
      in if compare v (hd (buffer cc1))
         then let b1 = pop_heap compare (buffer cc1);
                  b2 = b1[length b1 - 1 := v];
                  b3 = push_heap compare b2
              in (True, cc1\<lparr>buffer := b3\<rparr>)
         else (False, cc1))"

text \<open>A sequence of \<^verbatim>\<open>replace\<close> calls on one cache; the results of the calls in order.\<close>

fun replace_all :: "KeyedTTEntry list \<Rightarrow> ClusterCache \<Rightarrow> bool list \<times> ClusterCache" where
  "replace_all [] cc = ([], cc)"
| "replace_all (v # vs) cc =
     (case replace v cc of (r, cc1) \<Rightarrow>
        (case replace_all vs cc1 of (rs, cc2) \<Rightarrow> (r # rs, cc2)))"

section \<open>The ring exchange\<close>

text \<open>
  \<^verbatim>\<open>for (auto&& e : buffer) TTSendRecvBuffs[sendRecvPosted % 2][i++] = e;\<close> on the buffer
  \<open>B\<close>, from index \<open>i\<close> on.
\<close>

fun copy_buffer :: "nat \<Rightarrow> KeyedTTEntry list \<Rightarrow> KeyedTTEntry list \<Rightarrow> KeyedTTEntry list" where
  "copy_buffer i [] B = B"
| "copy_buffer i (e # es) B = copy_buffer (Suc i) es (B[i := e])"

text \<open>
  The entries the inner loop over \<open>i\<close> from \<open>irank * TTCacheSize\<close> up to
  \<open>(irank + 1) * TTCacheSize\<close> hands to \<^verbatim>\<open>TT.probe\<close> and \<^verbatim>\<open>save\<close>, in order.
\<close>

definition received :: "nat \<Rightarrow> nat \<Rightarrow> KeyedTTEntry list \<Rightarrow> KeyedTTEntry list" where
  "received TTCacheSize irank B =
     map (\<lambda>i. B ! i) [irank * TTCacheSize ..< (irank + 1) * TTCacheSize]"

text \<open>
  The loop over \<open>irank\<close> of \<^verbatim>\<open>handle_buffer\<close>. The second component collects, in order,
  the entries with which the transposition table was probed (by key) and saved.
\<close>

fun handle_ranks ::
  "nat \<Rightarrow> nat \<Rightarrow> nat list \<Rightarrow> ClusterCache \<times> KeyedTTEntry list
     \<Rightarrow> ClusterCache \<times> KeyedTTEntry list" where
  "handle_ranks TTCacheSize world_rank [] s = s"
| "handle_ranks TTCacheSize world_rank (irank # iranks) (cc, saved) =
     (let p = unat (this_sendRecvPosted cc mod 2)
      in if irank = world_rank
         then handle_ranks TTCacheSize world_rank iranks
                (cc\<lparr>TTSendRecvBuffs :=
                      (TTSendRecvBuffs cc)
                        [p := copy_buffer (irank * TTCacheSize) (buffer cc)
                                (TTSendRecvBuffs cc ! p)],
                    buffer := replicate (length (buffer cc)) KeyedTTEntry_init,
                    TTCacheCounter := 0\<rparr>,
                 saved)
         else handle_ranks TTCacheSize world_rank iranks
                (cc, saved @ received TTCacheSize irank (TTSendRecvBuffs cc ! p)))"

text \<open>
  \<^verbatim>\<open>ClusterCache::handle_buffer\<close>: the cache after the round, the entries saved to the
  transposition table, and the transport calls in the order they are made.
\<close>

definition handle_buffer ::
  "nat \<Rightarrow> nat \<Rightarrow> nat \<Rightarrow> ClusterCache
     \<Rightarrow> ClusterCache \<times> KeyedTTEntry list \<times> mpi_call list" where
  "handle_buffer TTCacheSize world_rank world_size cc =
     (case handle_ranks TTCacheSize world_rank [0..<world_size] (cc, []) of
        (cc1, saved) \<Rightarrow>
          (let posted = this_sendRecvPosted cc1 + 1;
               rb = unat (posted mod 2);
               sb = unat ((posted + 1) mod 2);
               recv = MPI_Irecv rb (length (TTSendRecvBuffs cc1 ! rb))
                        ((world_rank + world_size - 1) mod world_size) 42 TTComm;
               send = MPI_Isend sb (length (TTSendRecvBuffs cc1 ! sb))
                        ((world_rank + 1) mod world_size) 42 TTComm
           in (cc1\<lparr>this_sendRecvPosted := posted,
                   reqsTTSendRecv := [Outstanding recv, Outstanding send]\<rparr>,
               saved, [recv, send])))"

section \<open>Saving an entry\<close>

text \<open>
  The search thread as far as \<^verbatim>\<open>save\<close> touches it: its cache, its counter \<^verbatim>\<open>TTsaves\<close>,
  whether it is \<^verbatim>\<open>Threads.main()\<close>, and the \<^verbatim>\<open>callsCnt\<close> of the main thread.
\<close>

record Thread =
  ttCache :: ClusterCache
  TTsaves :: u64
  is_main :: bool
  callsCnt :: int

text \<open>
  \<^verbatim>\<open>MPI_Testall\<close> on the two handles: the flag is set when every handle is null or the
  transport has completed all of them (\<open>completed\<close>); completed handles become null.
\<close>

definition Testall ::
  "bool \<Rightarrow> mpi_call request list \<Rightarrow> bool \<times> mpi_call request list" where
  "Testall completed reqs =
     (if list_all (\<lambda>r. r = MPI_REQUEST_NULL) reqs \<or> completed
      then (True, map (\<lambda>r. MPI_REQUEST_NULL) reqs)
      else (False, reqs))"

text \<open>
  What a call of \<^verbatim>\<open>save\<close> leaves behind: the entry \<^verbatim>\<open>*tte\<close>, the thread, the variables of
  the namespace, the entries saved to the transposition table by a round, and the transport
  calls made, in order.
\<close>

record save_result =
  res_tte :: TTEntry
  res_thread :: Thread
  res_cluster :: Cluster
  res_TT_saved :: "KeyedTTEntry list"
  res_calls :: "mpi_call list"

text \<open>
  \<^verbatim>\<open>save\<close>. \<open>TTEntry_save\<close> is \<^verbatim>\<open>TTEntry::save\<close> of the transposition table, which decides
  what the entry holds afterwards; \<open>completed\<close> is the answer of the transport to the test.
\<close>

definition save ::
  "nat \<Rightarrow> nat \<Rightarrow> nat
     \<Rightarrow> (TTEntry \<Rightarrow> u64 \<Rightarrow> int \<Rightarrow> bool \<Rightarrow> int \<Rightarrow> int \<Rightarrow> int \<Rightarrow> int \<Rightarrow> TTEntry)
     \<Rightarrow> bool \<Rightarrow> Cluster \<Rightarrow> Thread \<Rightarrow> TTEntry
     \<Rightarrow> u64 \<Rightarrow> int \<Rightarrow> bool \<Rightarrow> int \<Rightarrow> int \<Rightarrow> int \<Rightarrow> int \<Rightarrow> save_result" where
  "save TTCacheSize world_rank world_size TTEntry_save completed st thread tte k v PvHit b d m ev =
     (let tte1 = TTEntry_save tte k v PvHit b d m ev
      in if d > 3 * ONE_PLY
         then
           (let th1 = thread\<lparr>TTsaves := TTsaves thread + 1\<rparr>;
                cc1 = snd (replace (k, tte1) (ttCache th1))
            in if TTCacheCounter cc1 \<ge> of_nat TTCacheSize
               then
                 (case Testall completed (reqsTTSendRecv cc1) of
                    (flag, reqs) \<Rightarrow>
                      if flag
                      then
                        (case handle_buffer TTCacheSize world_rank world_size
                                (cc1\<lparr>reqsTTSendRecv := reqs\<rparr>) of
                           (cc2, saved, calls) \<Rightarrow>
                             \<lparr>res_tte = tte1,
                              res_thread =
                                th1\<lparr>ttCache := cc2,
                                    callsCnt := (if is_main th1 then 0 else callsCnt th1)\<rparr>,
                              res_cluster = st\<lparr>sendRecvPosted := sendRecvPosted st + 1\<rparr>,
                              res_TT_saved = saved,
                              res_calls = MPI_Testall # calls\<rparr>)
                      else
                        \<lparr>res_tte = tte1,
                         res_thread = th1\<lparr>ttCache := cc1\<lparr>reqsTTSendRecv := reqs\<rparr>\<rparr>,
                         res_cluster = st, res_TT_saved = [], res_calls = [MPI_Testall]\<rparr>)
               else
                 \<lparr>res_tte = tte1, res_thread = th1\<lparr>ttCache := cc1\<rparr>, res_cluster = st,
                  res_TT_saved = [], res_calls = []\<rparr>)
         else
           \<lparr>res_tte = tte1, res_thread = thread, res_cluster = st, res_TT_saved = [],
            res_calls = []\<rparr>)"

section \<open>Picking the best move\<close>

text \<open>
  The C++ type \<^verbatim>\<open>int\<close>: 32 bits in two's complement. Addition and subtraction of words
  wrap around, \<open>sint\<close> reads a word as the signed number it stands for, and \<open><s\<close> is the
  signed comparison.
\<close>

type_synonym int32 = "32 word"

text \<open>
  Modelled from the spec: \<^verbatim>\<open>MoveInfo\<close> is declared in \<^verbatim>\<open>cluster.h\<close>; it is a record of the five
  integers \<^verbatim>\<open>move\<close>, \<^verbatim>\<open>ponder\<close>, \<^verbatim>\<open>depth\<close>, \<^verbatim>\<open>score\<close> and \<^verbatim>\<open>rank\<close>, which \<^verbatim>\<open>pick_moves\<close> reads into
  variables of type \<^verbatim>\<open>int\<close>.
\<close>

record MoveInfo =
  move :: int32
  ponder :: int32
  depth :: int32
  score :: int32
  rank :: int32

text \<open>\<^verbatim>\<open>std::min(a, b)\<close> on \<^verbatim>\<open>int\<close>: \<open>b\<close> if it is less than \<open>a\<close>, otherwise \<open>a\<close>.\<close>

definition std_min :: "int32 \<Rightarrow> int32 \<Rightarrow> int32" where
  "std_min a b = (if b <s a then b else a)"

text \<open>\<^verbatim>\<open>votes[k]\<close> on a \<^verbatim>\<open>std::map<int, int>\<close>: a missing key reads as zero.\<close>

definition votes_at :: "(int32 \<rightharpoonup> int32) \<Rightarrow> int32 \<Rightarrow> int32" where
  "votes_at votes k = (case votes k of None \<Rightarrow> 0 | Some x \<Rightarrow> x)"

text \<open>
  The three loops of the root over \<^verbatim>\<open>pMoveInfo[0 .. size())\<close>. The votes are added up in
  \<^verbatim>\<open>int\<close>, so a total outside the range of \<^verbatim>\<open>int\<close> wraps around.
\<close>

fun min_score_loop ::
  "MoveInfo list \<Rightarrow> int32 \<times> (int32 \<rightharpoonup> int32) \<Rightarrow> int32 \<times> (int32 \<rightharpoonup> int32)" where
  "min_score_loop [] s = s"
| "min_score_loop (x # xs) (minScore, votes) =
     min_score_loop xs (std_min minScore (score x), votes(move x \<mapsto> 0))"

fun votes_loop ::
  "int32 \<Rightarrow> MoveInfo list \<Rightarrow> (int32 \<rightharpoonup> int32) \<Rightarrow> (int32 \<rightharpoonup> int32)" where
  "votes_loop minScore [] votes = votes"
| "votes_loop minScore (x # xs) votes =
     votes_loop minScore xs
       (votes(move x \<mapsto> votes_at votes (move x) + (score x - minScore + depth x)))"

fun best_loop ::
  "(int32 \<rightharpoonup> int32) \<Rightarrow> MoveInfo list \<Rightarrow> int32 \<times> MoveInfo \<Rightarrow> int32 \<times> MoveInfo" where
  "best_loop votes [] s = s"
| "best_loop votes (x # xs) (bestVote, mi) =
     (if bestVote <s votes_at votes (move x)
      then best_loop votes xs (votes_at votes (move x), x)
      else best_loop votes xs (bestVote, mi))"

text \<open>
  The root's part of \<^verbatim>\<open>pick_moves\<close> between the gather and the broadcast: \<open>mi\<close> is the
  root's own record, \<open>pMoveInfo\<close> the gathered records in rank order. The result is the
  minimum score, the votes, and the record left in \<open>mi\<close>.
\<close>

definition pick_moves_root ::
  "MoveInfo \<Rightarrow> MoveInfo list \<Rightarrow> int32 \<times> (int32 \<rightharpoonup> int32) \<times> MoveInfo" where
  "pick_moves_root mi pMoveInfo =
     (case min_score_loop pMoveInfo (score (pMoveInfo ! 0), Map.empty) of
        (minScore, votes0) \<Rightarrow>
          (let votes = votes_loop minScore pMoveInfo votes0;
               bestVote = votes_at votes (move (pMoveInfo ! 0))
           in (minScore, votes, snd (best_loop votes pMoveInfo (bestVote, mi)))))"

text \<open>
  \<^verbatim>\<open>MPI_Gather\<close> puts the record of rank \<open>i\<close> at index \<open>i\<close> of the root's array, and
  \<^verbatim>\<open>MPI_Bcast\<close> leaves the root's \<open>mi\<close> on every rank: from the records of all ranks, in
  rank order, to the record every rank holds after the broadcast.
\<close>

definition pick_moves :: "MoveInfo list \<Rightarrow> MoveInfo" where
  "pick_moves mis = snd (snd (pick_moves_root (mis ! 0) mis))"

text \<open>
  What rank \<open>r\<close> does with the principal variation after the broadcast of \<open>mi\<close>: the two
  \<^verbatim>\<open>if\<close> statements at the end of \<^verbatim>\<open>pick_moves\<close>.
\<close>

datatype pv_action = PV_Send string | PV_Recv int32

definition pv_transfer :: "int32 \<Rightarrow> MoveInfo \<Rightarrow> string \<Rightarrow> pv_action list" where
  "pv_transfer r mi PVLine =
     (if rank mi \<noteq> 0 \<and> rank mi = r then [PV_Send PVLine] else []) @
     (if rank mi \<noteq> 0 \<and> r = 0 then [PV_Recv (rank mi)] else [])"

section \<open>Relaying the input\<close>

text \<open>
  \<^verbatim>\<open>std::getline\<close> of the C++ library on a stream of which \<open>unread\<close> is still to be read.
  On a stream that is not good it sets \<^verbatim>\<open>failbit\<close> and leaves the string; otherwise it
  erases the string and extracts up to the newline, which it drops, or up to the end, where
  it sets \<^verbatim>\<open>eofbit\<close>, and \<^verbatim>\<open>failbit\<close> too when it extracted nothing. The conversion of the
  stream to \<^verbatim>\<open>bool\<close> is the negation of \<^verbatim>\<open>fail()\<close>.
\<close>

record istream =
  unread :: string
  eofbit :: bool
  failbit :: bool

definition std_getline :: "istream \<Rightarrow> string \<Rightarrow> istream \<times> string \<times> bool" where
  "std_getline input str =
     (if eofbit input \<or> failbit input then (input\<lparr>failbit := True\<rparr>, str, False)
      else
        (let line = takeWhile (\<lambda>c. c \<noteq> CHR 0x0A) (unread input)
         in case dropWhile (\<lambda>c. c \<noteq> CHR 0x0A) (unread input) of
              [] \<Rightarrow> (\<lparr>unread = [], eofbit = True, failbit = (line = [])\<rparr>, line, line \<noteq> [])
            | nl # rest \<Rightarrow> (\<lparr>unread = rest, eofbit = False, failbit = False\<rparr>, line, True)))"

text \<open>The conversion of \<^verbatim>\<open>vec.size()\<close> to the 32-bit \<^verbatim>\<open>int size\<close>.\<close>

definition int_of_size :: "nat \<Rightarrow> int" where
  "int_of_size n = sint (word_of_nat n :: 32 word)"

text \<open>
  The root's part of \<^verbatim>\<open>getline\<close>: the stream afterwards, its string, the value it returns,
  and what it broadcasts on \<^verbatim>\<open>InputComm\<close>: \<^verbatim>\<open>size\<close>, the characters of \<^verbatim>\<open>vec\<close>, \<^verbatim>\<open>state\<close>.
\<close>

definition getline_root ::
  "istream \<Rightarrow> string \<Rightarrow> (istream \<times> string \<times> bool) \<times> (int \<times> string \<times> bool)" where
  "getline_root input str =
     (case std_getline input str of
        (input1, str1, state) \<Rightarrow>
          (let vec = str1; size_sent = int_of_size (length vec)
           in ((input1, str1, state), (size_sent, vec, state))))"

text \<open>
  The polling loop of a non-root rank on the broadcast of \<^verbatim>\<open>size\<close>: the list holds the
  flags of the successive \<^verbatim>\<open>MPI_Test\<close> calls, the result is the number of 10 ms sleeps. The
  loop has not ended (\<open>None\<close>) when no flag is set.
\<close>

fun poll_input :: "bool list \<Rightarrow> nat option" where
  "poll_input [] = None"
| "poll_input (flag # flags) =
     (if flag then Some 0 else map_option Suc (poll_input flags))"

text \<open>
  A non-root rank: it receives \<^verbatim>\<open>size\<close>, resizes its empty \<^verbatim>\<open>vec\<close> to it, receives \<^verbatim>\<open>size\<close>
  characters of the root's \<^verbatim>\<open>vec\<close> into it, assigns it to its string and receives \<^verbatim>\<open>state\<close>.
  On a negative \<^verbatim>\<open>size\<close>, which converts to a length beyond \<^verbatim>\<open>max_size()\<close>, \<^verbatim>\<open>vec.resize\<close>
  throws.
\<close>

definition getline_other ::
  "bool list \<Rightarrow> int \<times> string \<times> bool \<Rightarrow> string \<Rightarrow> (error + string \<times> bool) option" where
  "getline_other flags bcast str =
     (case bcast of
        (size_got, root_vec, root_state) \<Rightarrow>
          (case poll_input flags of
             None \<Rightarrow> None
           | Some sleeps \<Rightarrow>
               if size_got < 0 then Some (Inl LengthError)
               else
                 (let vec = replicate (nat size_got) (CHR 0x00);
                      vec1 = take (nat size_got) root_vec @ drop (length root_vec) vec
                  in Some (Inr (vec1, root_state)))))"

text \<open>
  One call of \<^verbatim>\<open>getline\<close> on every rank: rank 0 reads, each other rank \<open>r\<close> comes with its
  string and the flags its tests will see. The result lists string and return value of
  every rank, rank 0 first. The broadcast of a negative number of characters is an error of
  the transport, which ends the process.
\<close>

definition getline ::
  "istream \<Rightarrow> string \<Rightarrow> (string \<times> bool list) list
     \<Rightarrow> (error + string \<times> bool) option list" where
  "getline input str others =
     (case getline_root input str of
        ((input1, str1, state), bcast) \<Rightarrow>
          (if fst bcast < 0 then Some (Inl TransportError) else Some (Inr (str1, state))) #
          map (\<lambda>(s, flags). getline_other flags bcast s) others)"

section \<open>Invariants used in the proofs\<close>

text \<open>
  A single rank is quiet: the three \<^verbatim>\<open>Others\<close> counters are zero, and the receive array
  equals the send array once the reduction is complete, as the outstanding reduction holds
  the send array.
\<close>

definition quiet :: "Cluster \<Rightarrow> bool" where
  "quiet st \<longleftrightarrow>
     nodesSearchedOthers st = 0 \<and> tbHitsOthers st = 0 \<and> TTsavesOthers st = 0 \<and>
     (case reqSignals st of
        MPI_REQUEST_NULL \<Rightarrow> signalsRecv st = signalsSend st
      | Outstanding mine \<Rightarrow> mine = signalsSend st)"

text \<open>The depth of a keyed entry, the key of the heap.\<close>

definition dp :: "KeyedTTEntry \<Rightarrow> int" where
  "dp e = tte_depth (snd e)"

text \<open>
  The heap property of \<^verbatim>\<open>compare\<close> on the first \<open>n\<close> cells, in terms of depths: no cell is
  shallower than its parent. During \<^verbatim>\<open>push_heap\<close> it holds except that cell \<open>i\<close> may be
  shallower than its parent, during \<^verbatim>\<open>pop_heap\<close> except that cell \<open>i\<close> may be deeper than its
  children; in both the children of \<open>i\<close> are no shallower than the parent of \<open>i\<close>.
\<close>

definition heap_upto :: "nat \<Rightarrow> KeyedTTEntry list \<Rightarrow> bool" where
  "heap_upto n xs \<longleftrightarrow> (\<forall>j. 0 < j \<and> j < n \<longrightarrow> dp (xs ! ((j - 1) div 2)) \<le> dp (xs ! j))"

definition heap_but_up :: "nat \<Rightarrow> KeyedTTEntry list \<Rightarrow> nat \<Rightarrow> bool" where
  "heap_but_up n xs i \<longleftrightarrow>
     (\<forall>j. 0 < j \<and> j < n \<and> j \<noteq> i \<longrightarrow> dp (xs ! ((j - 1) div 2)) \<le> dp (xs ! j)) \<and>
     (\<forall>j. 0 < j \<and> j < n \<and> (j - 1) div 2 = i \<and> 0 < i \<longrightarrow>
          dp (xs ! ((i - 1) div 2)) \<le> dp (xs ! j))"

definition heap_but_down :: "nat \<Rightarrow> KeyedTTEntry list \<Rightarrow> nat \<Rightarrow> bool" where
  "heap_but_down n xs i \<longleftrightarrow>
     (\<forall>j. 0 < j \<and> j < n \<and> (j - 1) div 2 \<noteq> i \<longrightarrow> dp (xs ! ((j - 1) div 2)) \<le> dp (xs ! j)) \<and>
     (\<forall>j. 0 < j \<and> j < n \<and> (j - 1) div 2 = i \<and> 0 < i \<longrightarrow>
          dp (xs ! ((i - 1) div 2)) \<le> dp (xs ! j))"

text \<open>A single-rank run used as an example: two polls around some search progress.\<close>

definition busy_single :: Cluster where
  "busy_single =
     signals_poll (Some signals_zero)
       ((signals_poll None (signals_init (static_init 10 2 3 False)))
          \<lparr>Threads_nodes_searched := 500, Threads_tb_hits := 7, Threads_TT_saves := 40,
           Threads_stop := False, sendRecvPosted := 0\<rparr>)"

section \<open>Example data\<close>

text \<open>An entry with key \<open>k\<close> at depth \<open>d\<close>, all other members zero.\<close>

definition entry :: "nat \<Rightarrow> int \<Rightarrow> KeyedTTEntry" where
  "entry k d =
     (of_nat k, \<lparr>tte_move = 0, tte_value = 0, tte_eval = 0, tte_depth = d, tte_pv_hit = False,
               tte_bound = 0\<rparr>)"

text \<open>
  Rank 1 of two ranks with \<^verbatim>\<open>TTCacheSize = 4\<close>: its cache holds depths 21 to 27, and the
  active buffer holds in slot 0 what rank 0 sent, depths 20 to 26.
\<close>

definition cache_rank1 :: ClusterCache where
  "cache_rank1 =
     \<lparr>buffer = [entry 1 21, entry 3 23, entry 5 25, entry 7 27],
      TTCacheCounter = 4,
      TTSendRecvBuffs =
        [[entry 0 20, entry 2 22, entry 4 24, entry 6 26] @ replicate 4 KeyedTTEntry_init,
         replicate 8 KeyedTTEntry_init],
      reqsTTSendRecv = [MPI_REQUEST_NULL, MPI_REQUEST_NULL],
      this_sendRecvPosted = 0\<rparr>"

text \<open>A transposition table whose \<^verbatim>\<open>TTEntry::save\<close> always overwrites the entry.\<close>

definition always_replace ::
  "TTEntry \<Rightarrow> u64 \<Rightarrow> int \<Rightarrow> bool \<Rightarrow> int \<Rightarrow> int \<Rightarrow> int \<Rightarrow> int \<Rightarrow> TTEntry" where
  "always_replace tte k v PvHit b d m ev =
     \<lparr>tte_move = m, tte_value = v, tte_eval = ev, tte_depth = d, tte_pv_hit = PvHit,
      tte_bound = b\<rparr>"

text \<open>A worker thread on two ranks with \<^verbatim>\<open>TTCacheSize = 2\<close>, one offer since the last flush.\<close>

definition worker :: Thread where
  "worker = \<lparr>ttCache = (ClusterCache_init 2 2)\<lparr>TTCacheCounter := 1\<rparr>, TTsaves = 0,
             is_main = False, callsCnt = 7\<rparr>"

text \<open>The namespace after five rounds have been counted.\<close>

definition posted_five :: Cluster where
  "posted_five = (static_init 0 0 0 False)\<lparr>sendRecvPosted := 5\<rparr>"

text \<open>
  Two ranks at the end of a search: the first has posted three reductions and seen both
  stops, the second has posted one and is waiting for its result.
\<close>

definition rank_ahead :: Cluster where
  "rank_ahead =
     (static_init 100 0 0 True)
       \<lparr>signalsCallCounter := 3, stopSignalsPosted := 2,
        signalsSend := \<lparr>SIG_NODES = 100, SIG_STOP = 1, SIG_TB = 0, SIG_TTS = 0\<rparr>,
        reqSignals := Outstanding \<lparr>SIG_NODES = 100, SIG_STOP = 1, SIG_TB = 0, SIG_TTS = 0\<rparr>\<rparr>"

definition rank_behind :: Cluster where
  "rank_behind =
     (static_init 50 0 0 True)
       \<lparr>signalsCallCounter := 1, stopSignalsPosted := 0,
        signalsSend := \<lparr>SIG_NODES = 40, SIG_STOP = 1, SIG_TB = 0, SIG_TTS = 0\<rparr>,
        reqSignals := Outstanding \<lparr>SIG_NODES = 40, SIG_STOP = 1, SIG_TB = 0, SIG_TTS = 0\<rparr>\<rparr>"

text \<open>What each of the two contributes to a reduction.\<close>

definition from_ahead :: signals where
  "from_ahead = \<lparr>SIG_NODES = 100, SIG_STOP = 1, SIG_TB = 0, SIG_TTS = 0\<rparr>"

definition from_behind :: signals where
  "from_behind = \<lparr>SIG_NODES = 50, SIG_STOP = 1, SIG_TB = 0, SIG_TTS = 0\<rparr>"

text \<open>The four records of the voting scenario, move A as 1 and move B as 2.\<close>

definition mk :: "int32 \<Rightarrow> int32 \<Rightarrow> int32 \<Rightarrow> int32 \<Rightarrow> MoveInfo" where
  "mk m s d r = \<lparr>move = m, ponder = 0, depth = d, score = s, rank = r\<rparr>"

definition four_ranks :: "MoveInfo list" where
  "four_ranks = [mk 1 100 20 0, mk 1 100 20 1, mk 2 100 21 2, mk 2 95 22 3]"

text \<open>Two records whose first vote total, \<open>2147483667\<close>, is beyond the largest \<^verbatim>\<open>int\<close>.\<close>

definition beyond_int :: "MoveInfo list" where
  "beyond_int = [mk 1 2147483647 10 0, mk 2 (- 10) 5 1]"

text \<open>An input stream holding one command and one empty line, and one at its end.\<close>

definition startpos :: istream where
  "startpos = \<lparr>unread = ''position startpos'' @ [CHR 0x0A] @ [CHR 0x0A], eofbit = False,
               failbit = False\<rparr>"

definition at_end :: istream where
  "at_end = \<lparr>unread = [], eofbit = False, failbit = False\<rparr>"

text \<open>
  A cache of three cells that is full, a cache of one cell, and a sequence of six offers for
  an empty cache of which the fifth is too shallow.
\<close>

definition full_cache :: ClusterCache where
  "full_cache = (ClusterCache_init 3 1)\<lparr>buffer := [entry 1 5, entry 2 9, entry 3 7]\<rparr>"

definition one_cell :: ClusterCache where
  "one_cell = (ClusterCache_init 1 1)\<lparr>buffer := [entry 1 5]\<rparr>"

definition offers :: "KeyedTTEntry list" where
  "offers = [entry 1 5, entry 2 9, entry 3 7, entry 4 6, entry 5 6, entry 6 10]"

section \<open>Verified properties\<close>

subsection \<open>The diagnostic line\<close>

lemma int_div_ONE_PLY: "int_div d ONE_PLY = Inr d"
  by (simp add: int_div_def ONE_PLY_def) (simp add: mult_sgn_abs)

lemma elapsed_nonzero: "0 \<le> sint (t :: u64) \<Longrightarrow> t + 1 \<noteq> 0"
proof
  assume nn: "0 \<le> sint t" and z: "t + 1 = 0"
  from z have "t = - 1" by (simp add: eq_neg_iff_add_eq_0)
  then have "sint t = - 1" by simp
  with nn show False by simp
qed

lemma cluster_info_minus_one: "cluster_info C n (- 1) d st = Inl DivisionByZero"
  by (simp add: cluster_info_def int_div_ONE_PLY u64_div_def)

text \<open>
  C10: \<^verbatim>\<open>cluster_info\<close> divides by \<^verbatim>\<open>Time.elapsed() + 1\<close> in each of its three rates. For
  every elapsed time \<open>t \<ge> 0\<close>, zero included, that divisor is not zero, no division of the
  function fails (the division of the depth by \<^verbatim>\<open>ONE_PLY\<close> included), and the line holds the
  three quotients by \<open>t + 1\<close>.
\<close>

theorem cluster_info_divides:
  assumes "0 \<le> sint t"
  shows "t + 1 \<noteq> 0 \<and>
    cluster_info TTCacheSize world_size t d st =
      Inr \<lparr>info_depth = d, info_signals = signalsCallCounter st,
           info_sps = signalsCallCounter st * 1000 div (t + 1),
           info_sendRecvs = sendRecvPosted st,
           info_srpps =
             of_nat TTCacheSize * of_nat world_size * sendRecvPosted st * 1000 div (t + 1),
           info_TTSaves = TT_saves st,
           info_TTSavesps = TT_saves st * 1000 div (t + 1)\<rparr>"
  using elapsed_nonzero [OF assms]
  by (simp add: cluster_info_def int_div_ONE_PLY u64_div_def Let_def)

theorem cluster_info_divides_witness:
  "0 \<le> sint (0 :: u64) \<and>
   cluster_info 16 4 0 12 (static_init 7 0 3 False) =
      Inr \<lparr>info_depth = 12, info_signals = 0, info_sps = 0, info_sendRecvs = 0,
           info_srpps = 0, info_TTSaves = 3, info_TTSavesps = 3000\<rparr>"
  using cluster_info_divides [of 0 16 4 12 "static_init 7 0 3 False"]
  by (simp add: static_init_def TT_saves_def)

subsection \<open>A single rank counts like the standalone build\<close>

lemma signals_sum_zero: "signals_sum a signals_zero = a"
  by (simp add: signals_sum_def signals_zero_def)

lemma quiet_complete:
  "quiet st \<Longrightarrow>
   quiet (complete signals_zero st) \<and> reqSignals (complete signals_zero st) = MPI_REQUEST_NULL"
  by (auto simp: quiet_def complete_def signals_sum_zero split: request.splits)

lemma quiet_process_send:
  "quiet st \<Longrightarrow> reqSignals st = MPI_REQUEST_NULL \<Longrightarrow> quiet (signals_send (signals_process st))"
  by (simp add: quiet_def signals_send_def signals_process_def Let_def)

lemma quiet_process:
  "quiet st \<Longrightarrow> reqSignals st = MPI_REQUEST_NULL \<Longrightarrow> quiet (signals_process st)"
  by (simp add: quiet_def signals_process_def)

lemma quiet_poll:
  "quiet st \<Longrightarrow> a = None \<or> a = Some signals_zero \<Longrightarrow> quiet (signals_poll a st)"
  using quiet_complete [of st] quiet_process_send
  by (auto simp: signals_poll_def MPI_Test_def split: request.splits option.splits)

lemma quiet_loop:
  "quiet st \<Longrightarrow> list_all (\<lambda>a. a = None \<or> a = Some signals_zero) as \<Longrightarrow>
   signals_sync_loop n as st = Some st1 \<Longrightarrow> quiet st1"
proof (induction as arbitrary: st)
  case Nil
  then show ?case by (simp split: if_splits)
next
  case (Cons a as)
  then show ?case by (auto split: if_splits dest: quiet_poll)
qed

lemma quiet_finish:
  "quiet st \<Longrightarrow> signals_sync_finish [] signals_zero signals_zero st = Inr st' \<Longrightarrow> quiet st'"
  using quiet_complete [of st] quiet_process [of "complete signals_zero st"]
  by (auto simp: signals_sync_finish_def Allreduce_MAX_def MPI_Wait_def)

lemma single_rank_quiet: "single_rank st \<Longrightarrow> quiet st"
proof (induction rule: single_rank.induct)
  case (start n t s b)
  show ?case by (simp add: quiet_def static_init_def)
next
  case (search st n t s b c)
  then show ?case by (simp add: quiet_def split: request.splits)
next
  case (init st)
  then show ?case by (simp add: quiet_def signals_init_def)
next
  case (poll st arrival)
  then show ?case by (simp add: quiet_poll)
next
  case (sync st answers st')
  then show ?case
    by (auto simp: signals_sync_def split: option.splits dest: quiet_loop quiet_finish)
qed

lemma single_rank_busy: "single_rank busy_single"
  unfolding busy_single_def
  by (intro single_rank.poll single_rank.search single_rank.init single_rank.start)
     (simp_all add: static_init_def)

text \<open>
  C8: in every state a process running alone can reach, \<^verbatim>\<open>nodes_searched()\<close>, \<^verbatim>\<open>tb_hits()\<close>
  and \<^verbatim>\<open>TT_saves()\<close> return exactly the totals of the local thread pool (the \<^verbatim>\<open>Others\<close>
  counters contribute zero), which is what the three functions of the build without the
  transport return.
\<close>

theorem single_rank_totals:
  assumes "single_rank st"
  shows "nodes_searched st = Threads_nodes_searched st \<and>
         tb_hits st = Threads_tb_hits st \<and>
         TT_saves st = Threads_TT_saves st \<and>
         nodes_searched st = nodes_searched_standalone st \<and>
         tb_hits st = tb_hits_standalone st \<and>
         TT_saves st = TT_saves_standalone st"
  using single_rank_quiet [OF assms]
  by (simp add: quiet_def nodes_searched_def tb_hits_def TT_saves_def
      nodes_searched_standalone_def tb_hits_standalone_def TT_saves_standalone_def)

theorem single_rank_totals_witness:
  "single_rank busy_single \<and> nodes_searched busy_single = 500 \<and>
   signalsCallCounter busy_single = 2 \<and> nodes_searched_standalone busy_single = 500"
  using single_rank_totals [OF single_rank_busy] single_rank_busy
  by (simp add: busy_single_def nodes_searched_standalone_def signals_poll_def MPI_Test_def
      signals_init_def static_init_def signals_send_def signals_process_def complete_def
      signals_sum_def signals_zero_def Let_def)

subsection \<open>One round of the ring exchange\<close>

lemma copy_buffer_length [simp]: "length (copy_buffer i es B) = length B"
  by (induction es arbitrary: i B) simp_all

lemma copy_buffer_eq:
  "i + length es \<le> length B \<Longrightarrow> copy_buffer i es B = take i B @ es @ drop (i + length es) B"
proof (induction es arbitrary: i B)
  case Nil
  then show ?case by simp
next
  case (Cons e es)
  have "copy_buffer (Suc i) es (B[i := e]) =
        take (Suc i) (B[i := e]) @ es @ drop (Suc i + length es) (B[i := e])"
    using Cons.prems by (intro Cons.IH) simp
  also have "take (Suc i) (B[i := e]) = take i B @ [e]"
    using Cons.prems by (simp add: take_Suc_conv_app_nth)
  also have "drop (Suc i + length es) (B[i := e]) = drop (i + length (e # es)) B"
    by simp
  finally show ?case by simp
qed

lemma received_eq:
  "(irank + 1) * C \<le> length B \<Longrightarrow> received C irank B = take C (drop (irank * C) B)"
  unfolding received_def
  by (rule nth_equalityI) (auto simp: algebra_simps)

lemma nth_outside_slot:
  assumes "k + length es \<le> length B" and "i < k \<or> k + length es \<le> i"
  shows "(take k B @ es @ drop (k + length es) B) ! i = B ! i"
proof (cases "i < k")
  case True
  with assms show ?thesis by (simp add: nth_append)
next
  case False
  with assms have ge: "k + length es \<le> i" by simp
  have "(take k B @ es @ drop (k + length es) B) ! i = (es @ drop (k + length es) B) ! (i - k)"
    using False assms(1) by (simp add: nth_append)
  also have "\<dots> = drop (k + length es) B ! (i - k - length es)"
  proof -
    have "\<not> i - k < length es" using ge by arith
    then show ?thesis by (simp only: nth_append if_False)
  qed
  also have "\<dots> = B ! (k + length es + (i - k - length es))"
    using assms(1) by simp
  also have "k + length es + (i - k - length es) = i" using ge by simp
  finally show ?thesis .
qed

lemma slot_nth_other:
  assumes ne: "irank \<noteq> r" and len: "length es = C" and fit: "r * C + C \<le> length B"
      and lo: "irank * C \<le> i" and hi: "i < (irank + 1) * C"
  shows "(take (r * C) B @ es @ drop (r * C + C) B) ! i = B ! i"
proof -
  have "i < r * C \<or> r * C + C \<le> i"
  proof (cases "irank < r")
    case True
    then have "(irank + 1) * C \<le> r * C" by (intro mult_le_mono1) simp
    with hi show ?thesis by simp
  next
    case False
    with ne have "r + 1 \<le> irank" by simp
    then have "(r + 1) * C \<le> irank * C" by (rule mult_le_mono1)
    with lo show ?thesis by (simp add: algebra_simps)
  qed
  then show ?thesis
    using nth_outside_slot [of "r * C" es B i] len fit by simp
qed

lemma received_other:
  assumes "irank \<noteq> r" "length es = C" "r * C + C \<le> length B"
  shows "received C irank (take (r * C) B @ es @ drop (r * C + C) B) = received C irank B"
  unfolding received_def
  by (rule map_cong [OF refl]) (simp add: slot_nth_other [OF assms])

lemma handle_ranks_append:
  "handle_ranks C r (xs @ ys) s = handle_ranks C r ys (handle_ranks C r xs s)"
proof (induction xs arbitrary: s)
  case Nil
  show ?case by simp
next
  case (Cons x xs)
  obtain cc saved where s: "s = (cc, saved)" by (cases s)
  show ?case unfolding s by (simp add: Let_def Cons.IH)
qed

lemma handle_ranks_others:
  "r \<notin> set irs \<Longrightarrow>
   handle_ranks C r irs (cc, saved) =
     (cc, saved @ concat (map (\<lambda>ir. received C ir (TTSendRecvBuffs cc ! unat (this_sendRecvPosted cc mod 2))) irs))"
  by (induction irs arbitrary: saved) (auto simp: Let_def)

lemma handle_ranks_own:
  "handle_ranks C r [r] (cc, saved) =
     (cc\<lparr>TTSendRecvBuffs :=
           (TTSendRecvBuffs cc)
             [unat (this_sendRecvPosted cc mod 2) :=
                copy_buffer (r * C) (buffer cc)
                  (TTSendRecvBuffs cc ! unat (this_sendRecvPosted cc mod 2))],
         buffer := replicate (length (buffer cc)) KeyedTTEntry_init,
         TTCacheCounter := 0\<rparr>, saved)"
  by (simp add: Let_def)

lemma unat_mod2: "unat ((w :: u64) mod 2) = unat w mod 2"
  by (simp add: unat_mod_distrib)

lemma parity_cases: "unat ((w :: u64) mod 2) = 0 \<or> unat (w mod 2) = 1"
  unfolding unat_mod2 by arith

lemma parity_next: "unat (((w :: u64) + 1) mod 2) = 1 - unat (w mod 2)"
proof -
  have "unat (w + 1) mod 2 = (unat w + 1) mod 2 ^ 64 mod 2"
    by (simp add: unat_word_ariths)
  also have "\<dots> = (unat w + 1) mod 2"
    by (rule mod_mod_cancel) simp
  finally show ?thesis unfolding unat_mod2 by arith
qed

lemma upt_split_rank:
  "r < n \<Longrightarrow> [0..<n] = [0..<r] @ [r] @ [Suc r..<n]"
  by (metis append_Cons append_Nil le_add1 le_add_same_cancel1 less_imp_add_positive upt_add_eq_append upt_rec)

lemma handle_ranks_all:
  assumes r: "r < n" and two: "length (TTSendRecvBuffs cc) = 2"
      and lb: "length (buffer cc) = C"
      and lB: "length (TTSendRecvBuffs cc ! unat (this_sendRecvPosted cc mod 2)) = C * n"
  shows "handle_ranks C r [0..<n] (cc, []) =
     (cc\<lparr>TTSendRecvBuffs :=
           (TTSendRecvBuffs cc)
             [unat (this_sendRecvPosted cc mod 2) :=
                take (r * C) (TTSendRecvBuffs cc ! unat (this_sendRecvPosted cc mod 2)) @ buffer cc @
                drop (r * C + C) (TTSendRecvBuffs cc ! unat (this_sendRecvPosted cc mod 2))],
         buffer := replicate C KeyedTTEntry_init,
         TTCacheCounter := 0\<rparr>,
      concat (map (\<lambda>ir. received C ir (TTSendRecvBuffs cc ! unat (this_sendRecvPosted cc mod 2)))
                (filter (\<lambda>ir. ir \<noteq> r) [0..<n])))"
proof -
  let ?p = "unat (this_sendRecvPosted cc mod 2)"
  let ?B = "TTSendRecvBuffs cc ! ?p"
  let ?B' = "take (r * C) ?B @ buffer cc @ drop (r * C + C) ?B"
  let ?cc' = "cc\<lparr>TTSendRecvBuffs := (TTSendRecvBuffs cc)[?p := ?B'],
                 buffer := replicate C KeyedTTEntry_init, TTCacheCounter := 0\<rparr>"
  have p2: "?p < 2" using parity_cases [of "this_sendRecvPosted cc"] by auto
  have "(r + 1) * C \<le> n * C" using r by (intro mult_le_mono1) simp
  then have fit: "r * C + C \<le> length ?B" using lB by (simp add: algebra_simps)
  have copy: "copy_buffer (r * C) (buffer cc) ?B = ?B'"
    using fit lb by (simp add: copy_buffer_eq)
  have lo: "r \<notin> set [0..<r]" and hi: "r \<notin> set [Suc r..<n]" by simp_all
  have f1: "filter (\<lambda>ir. ir \<noteq> r) [0..<n] = [0..<r] @ [Suc r..<n]"
    unfolding upt_split_rank [OF r] by (auto simp: filter_id_conv filter_empty_conv)
  have s1: "handle_ranks C r [0..<r] (cc, []) = (cc, concat (map (\<lambda>ir. received C ir ?B) [0..<r]))"
    using handle_ranks_others [OF lo, of C cc "[]"] by simp
  have s2: "handle_ranks C r [r] (cc, saved) = (?cc', saved)" for saved
    by (simp add: Let_def copy lb)
  have B': "TTSendRecvBuffs ?cc' ! unat (this_sendRecvPosted ?cc' mod 2) = ?B'"
    using p2 two by simp
  have same: "map (\<lambda>ir. received C ir ?B') [Suc r..<n] = map (\<lambda>ir. received C ir ?B) [Suc r..<n]"
    by (rule map_cong [OF refl]) (simp add: received_other lb fit)
  have s3: "handle_ranks C r [Suc r..<n] (?cc', saved) =
              (?cc', saved @ concat (map (\<lambda>ir. received C ir ?B) [Suc r..<n]))" for saved
    using handle_ranks_others [OF hi, of C ?cc' saved] unfolding B' same .
  show ?thesis
    unfolding upt_split_rank [OF r] handle_ranks_append s1 s2 s3 f1 by simp
qed


lemma handle_ranks_posted:
  "this_sendRecvPosted (fst (handle_ranks C r irs (cc, saved))) = this_sendRecvPosted cc"
  by (induction irs arbitrary: cc saved) (simp_all add: Let_def)

lemma handle_buffer_posted:
  "this_sendRecvPosted (fst (handle_buffer C r n cc)) = this_sendRecvPosted cc + 1"
  using handle_ranks_posted [of C r "[0..<n]" cc "[]"]
  by (auto simp: handle_buffer_def Let_def split: prod.splits)

text \<open>
  C1: one round of \<^verbatim>\<open>handle_buffer\<close> on rank \<open>world_rank\<close>, with \<open>p\<close> the parity of the
  counter of the cache and \<open>B\<close> the active buffer: the entries of the cache are copied into
  the slot of the rank in \<open>B\<close> and nothing else of the two buffers changes; the cache is reset
  to \<^verbatim>\<open>KeyedTTEntry()\<close> entries and \<^verbatim>\<open>TTCacheCounter\<close> to zero; the entries saved to the
  transposition table are the entries, as received, of the slots of all other ranks in rank
  order, so none of the rank's own slot; the counter is incremented and the receive is
  posted into the buffer of the new parity from rank \<open>(world_rank + world_size - 1) mod
  world_size\<close>, the send from the buffer just filled to rank \<open>(world_rank + 1) mod
  world_size\<close>, both with tag 42 on \<^verbatim>\<open>TTComm\<close>.
\<close>

theorem handle_buffer_round:
  assumes r: "world_rank < world_size"
      and two: "length (TTSendRecvBuffs cc) = 2"
      and lb: "length (buffer cc) = TTCacheSize"
      and l0: "length (TTSendRecvBuffs cc ! 0) = TTCacheSize * world_size"
      and l1: "length (TTSendRecvBuffs cc ! 1) = TTCacheSize * world_size"
  shows "case handle_buffer TTCacheSize world_rank world_size cc of
      (cc', saved, calls) \<Rightarrow>
        (let p = unat (this_sendRecvPosted cc mod 2); B = TTSendRecvBuffs cc ! p
         in TTSendRecvBuffs cc' ! p =
              take (world_rank * TTCacheSize) B @ buffer cc @
              drop (world_rank * TTCacheSize + TTCacheSize) B \<and>
            TTSendRecvBuffs cc' ! (1 - p) = TTSendRecvBuffs cc ! (1 - p) \<and>
            buffer cc' = replicate TTCacheSize KeyedTTEntry_init \<and>
            TTCacheCounter cc' = 0 \<and>
            saved = concat (map (\<lambda>irank. take TTCacheSize (drop (irank * TTCacheSize) B))
                             (filter (\<lambda>irank. irank \<noteq> world_rank) [0..<world_size])) \<and>
            this_sendRecvPosted cc' = this_sendRecvPosted cc + 1 \<and>
            unat (this_sendRecvPosted cc' mod 2) = 1 - p \<and>
            unat ((this_sendRecvPosted cc' + 1) mod 2) = p \<and>
            calls =
              [MPI_Irecv (unat (this_sendRecvPosted cc' mod 2)) (TTCacheSize * world_size)
                 ((world_rank + world_size - 1) mod world_size) 42 TTComm,
               MPI_Isend (unat ((this_sendRecvPosted cc' + 1) mod 2)) (TTCacheSize * world_size)
                 ((world_rank + 1) mod world_size) 42 TTComm] \<and>
            reqsTTSendRecv cc' = map Outstanding calls)"
proof -
  let ?w = "this_sendRecvPosted cc"
  let ?p = "unat (?w mod 2)"
  let ?B = "TTSendRecvBuffs cc ! ?p"
  have p: "?p = 0 \<or> ?p = 1" by (rule parity_cases)
  then have lB: "length ?B = TTCacheSize * world_size" using l0 l1 by auto
  have n1: "unat ((?w + 1) mod 2) = 1 - ?p" by (rule parity_next)
  have n2: "unat ((?w + 1 + 1) mod 2) = ?p"
    using parity_next [of "?w + 1"] n1 p by auto
  have rec: "map (\<lambda>ir. received TTCacheSize ir ?B) (filter (\<lambda>ir. ir \<noteq> world_rank) [0..<world_size]) =
             map (\<lambda>ir. take TTCacheSize (drop (ir * TTCacheSize) ?B))
               (filter (\<lambda>ir. ir \<noteq> world_rank) [0..<world_size])"
  proof (rule map_cong [OF refl])
    fix ir assume "ir \<in> set (filter (\<lambda>ir. ir \<noteq> world_rank) [0..<world_size])"
    then have "ir + 1 \<le> world_size" by simp
    then have "(ir + 1) * TTCacheSize \<le> world_size * TTCacheSize" by (rule mult_le_mono1)
    then show "received TTCacheSize ir ?B = take TTCacheSize (drop (ir * TTCacheSize) ?B)"
      using lB by (intro received_eq) (simp add: mult.commute)
  qed
  have lens: "length (TTSendRecvBuffs cc ! (1 - ?p)) = TTCacheSize * world_size"
    using p l0 l1 by auto
  have "(world_rank + 1) * TTCacheSize \<le> world_size * TTCacheSize"
    using r by (intro mult_le_mono1) simp
  then have fit: "world_rank * TTCacheSize + TTCacheSize \<le> length ?B"
    using lB by (simp add: algebra_simps)
  show ?thesis
    unfolding handle_buffer_def handle_ranks_all [OF r two lb lB] rec
    using p two n1 n2 l0 l1 lb fit
    by (auto simp: Let_def)
qed


theorem handle_buffer_round_witness:
  "(1 :: nat) < 2 \<and> length (TTSendRecvBuffs cache_rank1) = 2 \<and> length (buffer cache_rank1) = 4 \<and>
   fst (snd (handle_buffer 4 1 2 cache_rank1)) =
     [entry 0 20, entry 2 22, entry 4 24, entry 6 26] \<and>
   snd (snd (handle_buffer 4 1 2 cache_rank1)) =
     [MPI_Irecv 1 8 0 42 TTComm, MPI_Isend 0 8 0 42 TTComm] \<and>
   TTSendRecvBuffs (fst (handle_buffer 4 1 2 cache_rank1)) ! 0 =
     [entry 0 20, entry 2 22, entry 4 24, entry 6 26,
      entry 1 21, entry 3 23, entry 5 25, entry 7 27] \<and>
   buffer (fst (handle_buffer 4 1 2 cache_rank1)) = replicate 4 KeyedTTEntry_init \<and>
   TTCacheCounter (fst (handle_buffer 4 1 2 cache_rank1)) = 0 \<and>
   this_sendRecvPosted (fst (handle_buffer 4 1 2 cache_rank1)) = 1"
proof -
  have up: "[0..<2] = [0, 1]" by (simp add: numeral_2_eq_2)
  have "case handle_buffer 4 1 2 cache_rank1 of
      (cc', saved, calls) \<Rightarrow>
        TTSendRecvBuffs cc' ! 0 =
          [entry 0 20, entry 2 22, entry 4 24, entry 6 26,
           entry 1 21, entry 3 23, entry 5 25, entry 7 27] \<and>
        buffer cc' = replicate 4 KeyedTTEntry_init \<and> TTCacheCounter cc' = 0 \<and>
        saved = [entry 0 20, entry 2 22, entry 4 24, entry 6 26] \<and>
        this_sendRecvPosted cc' = 1 \<and>
        calls = [MPI_Irecv 1 8 0 42 TTComm, MPI_Isend 0 8 0 42 TTComm]"
    using handle_buffer_round [of 1 2 cache_rank1 4]
    by (simp add: cache_rank1_def up Let_def split: prod.splits)
  then show ?thesis
    by (simp add: cache_rank1_def split: prod.splits)
qed

subsection \<open>Saving an entry\<close>

lemma replace_frame:
  "TTCacheCounter (snd (replace v cc)) = TTCacheCounter cc + 1 \<and>
   reqsTTSendRecv (snd (replace v cc)) = reqsTTSendRecv cc \<and>
   TTSendRecvBuffs (snd (replace v cc)) = TTSendRecvBuffs cc \<and>
   this_sendRecvPosted (snd (replace v cc)) = this_sendRecvPosted cc"
  by (simp add: replace_def Let_def)

lemma Testall_flag:
  "fst (Testall c reqs) \<longleftrightarrow> list_all (\<lambda>q. q = MPI_REQUEST_NULL) reqs \<or> c"
  by (simp add: Testall_def)

lemma Testall_keep:
  "\<not> list_all (\<lambda>q. q = MPI_REQUEST_NULL) reqs \<Longrightarrow> snd (Testall False reqs) = reqs"
  by (simp add: Testall_def)

lemma handle_buffer_calls:
  "\<exists>rb rn src sb sn dst.
     snd (snd (handle_buffer C r n cc)) =
       [MPI_Irecv rb rn src 42 TTComm, MPI_Isend sb sn dst 42 TTComm]"
  by (simp add: handle_buffer_def Let_def split: prod.splits)

text \<open>
  C4: every call of \<^verbatim>\<open>save\<close> performs the plain save of the entry. Only for a depth above
  three plies the counter \<^verbatim>\<open>TTsaves\<close> of the thread is incremented and the entry offered to
  the cache. The transport is tested only when \<^verbatim>\<open>TTCacheCounter\<close> has reached
  \<^verbatim>\<open>TTCacheSize\<close>, and a round is performed exactly when the test then reports both handles
  complete. The transport calls of a call of \<^verbatim>\<open>save\<close> are none, the test alone, or the
  test followed by the non-blocking receive and send of the round: no call waits.
\<close>

theorem save_steps:
  "(let tte1 = TTEntry_save tte k v PvHit b d m ev;
        cc1 = snd (replace (k, tte1) (ttCache thread));
        test = Testall completed (reqsTTSendRecv cc1);
        round = handle_buffer TTCacheSize world_rank world_size (cc1\<lparr>reqsTTSendRecv := snd test\<rparr>);
        res = save TTCacheSize world_rank world_size TTEntry_save completed st thread tte
                k v PvHit b d m ev
    in res_tte res = tte1 \<and>
       TTCacheCounter cc1 = TTCacheCounter (ttCache thread) + 1 \<and>
       (fst test \<longleftrightarrow>
          list_all (\<lambda>q. q = MPI_REQUEST_NULL) (reqsTTSendRecv (ttCache thread)) \<or> completed) \<and>
       (if d > 3 * ONE_PLY
        then TTsaves (res_thread res) = TTsaves thread + 1 \<and>
             (if of_nat TTCacheSize \<le> TTCacheCounter cc1
              then (if fst test
                    then ttCache (res_thread res) = fst round \<and>
                         res_TT_saved res = fst (snd round) \<and>
                         res_calls res = MPI_Testall # snd (snd round) \<and>
                         (\<exists>rb rn src sb sn dst. res_calls res =
                            [MPI_Testall, MPI_Irecv rb rn src 42 TTComm,
                             MPI_Isend sb sn dst 42 TTComm]) \<and>
                         res_cluster res = st\<lparr>sendRecvPosted := sendRecvPosted st + 1\<rparr>
                    else ttCache (res_thread res) = cc1 \<and> res_TT_saved res = [] \<and>
                         res_calls res = [MPI_Testall] \<and> res_cluster res = st)
              else ttCache (res_thread res) = cc1 \<and> res_TT_saved res = [] \<and>
                   res_calls res = [] \<and> res_cluster res = st)
        else res_thread res = thread \<and> res_TT_saved res = [] \<and> res_calls res = [] \<and>
             res_cluster res = st))"
  using handle_buffer_calls
    [of TTCacheSize world_rank world_size
        "snd (replace (k, TTEntry_save tte k v PvHit b d m ev) (ttCache thread))
           \<lparr>reqsTTSendRecv := snd (Testall completed (reqsTTSendRecv (ttCache thread)))\<rparr>"]
  by (simp add: save_def Let_def case_prod_beta replace_frame Testall_flag Testall_keep)

theorem save_steps_witness:
  "res_calls (save 2 0 2 always_replace False posted_five worker (snd KeyedTTEntry_init)
                9 30 False 1 5 77 12) =
     [MPI_Testall, MPI_Irecv 1 4 1 42 TTComm, MPI_Isend 0 4 1 42 TTComm] \<and>
   TTsaves (res_thread (save 2 0 2 always_replace False posted_five worker
                          (snd KeyedTTEntry_init) 9 30 False 1 5 77 12)) = 1 \<and>
   res_calls (save 2 0 2 always_replace False posted_five worker (snd KeyedTTEntry_init)
                9 30 False 1 3 77 12) = [] \<and>
   tte_depth (res_tte (save 2 0 2 always_replace False posted_five worker
                         (snd KeyedTTEntry_init) 9 30 False 1 3 77 12)) = 3"
proof -
  have a: "res_calls (save 2 0 2 always_replace False posted_five worker (snd KeyedTTEntry_init)
                9 30 False 1 5 77 12) =
     [MPI_Testall, MPI_Irecv 1 4 1 42 TTComm, MPI_Isend 0 4 1 42 TTComm]"
    by code_simp
  have b: "TTsaves (res_thread (save 2 0 2 always_replace False posted_five worker
                          (snd KeyedTTEntry_init) 9 30 False 1 5 77 12)) = 1"
    by code_simp
  have c: "res_calls (save 2 0 2 always_replace False posted_five worker (snd KeyedTTEntry_init)
                9 30 False 1 3 77 12) = []"
    by code_simp
  have "res_tte (save 2 0 2 always_replace False posted_five worker (snd KeyedTTEntry_init)
                   9 30 False 1 3 77 12) =
        always_replace (snd KeyedTTEntry_init) 9 30 False 1 3 77 12"
    using save_steps [of always_replace "snd KeyedTTEntry_init" 9 30 False 1 3 77 12 worker
                         False 2 0 2 posted_five]
    unfolding Let_def by (rule conjunct1)
  then have d: "tte_depth (res_tte (save 2 0 2 always_replace False posted_five worker
                         (snd KeyedTTEntry_init) 9 30 False 1 3 77 12)) = 3"
    by (simp add: always_replace_def)
  show ?thesis using a b c d by simp
qed

subsection \<open>The end of the signal loop\<close>

lemma sync_loop_exit:
  "signals_sync_loop n as st = Some st1 \<Longrightarrow> of_nat n \<le> stopSignalsPosted st1"
  by (induction as arbitrary: st) (auto split: if_splits)

lemma sync_loop_returns:
  "of_nat n \<le> stopSignalsPosted st \<Longrightarrow> signals_sync_loop n as st = Some st"
  by (cases as) auto

lemma Allreduce_MAX_Max: "Allreduce_MAX c ps = Max (insert c (set ps))"
  unfolding Allreduce_MAX_def using Max.set_eq_fold [of c ps] by simp

lemma peers_of_set:
  assumes "i < length sts"
  shows "insert (signalsCallCounter (sts ! i)) (set (peers_of i sts)) = signalsCallCounter ` set sts"
proof -
  have "sts = take i sts @ sts ! i # drop (Suc i) sts"
    using assms by (rule id_take_nth_drop)
  then have "set sts = insert (sts ! i) (set (take i sts @ drop (Suc i) sts))"
    by (metis Un_insert_right list.simps(15) set_append)
  then have "signalsCallCounter ` set sts =
      signalsCallCounter ` insert (sts ! i) (set (take i sts @ drop (Suc i) sts))"
    by (rule arg_cong)
  then show ?thesis by (simp add: peers_of_def image_Un)
qed

lemma Allreduce_MAX_ge: "c \<le> Allreduce_MAX c ps"
  unfolding Allreduce_MAX_Max by (rule Max_ge) simp_all

lemma word_succ: "unat (c :: u64) < unat g \<Longrightarrow> unat g \<le> unat c + 1 \<Longrightarrow> g = c + 1"
proof -
  assume a: "unat c < unat g" "unat g \<le> unat c + 1"
  then have e: "unat g = unat c + 1" by simp
  have "unat g < 2 ^ 64" using unsigned_less [of g] by simp
  with e have "unat (c + 1) = unat c + 1" by (simp add: unat_word_ariths)
  with e show ?thesis by (simp add: word_unat_eq_iff)
qed

lemma complete_frame:
  "reqSignals (complete w st) = MPI_REQUEST_NULL \<and>
   signalsCallCounter (complete w st) = signalsCallCounter st \<and>
   sendRecvPosted (complete w st) = sendRecvPosted st"
  by (simp add: complete_def split: request.splits)

lemma process_frame:
  "reqSignals (signals_process st) = reqSignals st \<and>
   signalsCallCounter (signals_process st) = signalsCallCounter st \<and>
   sendRecvPosted (signals_process st) = sendRecvPosted st"
  by (simp add: signals_process_def)

lemma send_frame:
  "signalsCallCounter (signals_send st) = signalsCallCounter st + 1 \<and>
   sendRecvPosted (signals_send st) = sendRecvPosted st"
  by (simp add: signals_send_def Let_def)

lemma finish_cases:
  assumes "g = Allreduce_MAX (signalsCallCounter st) peers"
      and "signalsCallCounter st = g \<or> signalsCallCounter st + 1 = g"
  shows "signals_sync_finish peers w1 w2 st =
           Inr (signals_process (MPI_Wait w2
                  (if signalsCallCounter st < g then signals_send (MPI_Wait w1 st) else st)))"
proof (cases "signalsCallCounter st < g")
  case True
  with assms have "signalsCallCounter st + 1 = g" by auto
  with True assms(1) show ?thesis
    by (simp add: signals_sync_finish_def Let_def MPI_Wait_def send_frame complete_frame)
next
  case False
  moreover have "signalsCallCounter st \<le> g"
    unfolding assms(1) by (rule Allreduce_MAX_ge)
  ultimately have "signalsCallCounter st = g" by simp
  with assms(1) show ?thesis
    by (simp add: signals_sync_finish_def Let_def)
qed

text \<open>
  C7: let every rank \<open>i\<close> leave the polling loop of \<^verbatim>\<open>signals_sync\<close> in state \<open>sts1 ! i\<close>, with
  the call counters of the ranks at most one apart. Then rank \<open>i\<close> has seen
  \<^verbatim>\<open>stopSignalsPosted >= size\<close> when it leaves the loop; \<^verbatim>\<open>signals_sync\<close> returns without a
  failed assertion; a rank below the maximum of the counters has issued exactly one more
  \<^verbatim>\<open>signals_send\<close> between two waits, the others none; on exit the counter of every rank is
  that maximum and the handle \<^verbatim>\<open>reqSignals\<close> is null.
\<close>

theorem signals_sync_exit:
  assumes len: "length sts1 = length sts"
      and loops: "\<forall>i<length sts. signals_sync_loop world_size (answers i) (sts ! i) = Some (sts1 ! i)"
      and lag: "\<forall>a\<in>set sts1. \<forall>b\<in>set sts1.
                  unat (signalsCallCounter a) \<le> unat (signalsCallCounter b) + 1"
      and i: "i < length sts"
  shows "of_nat world_size \<le> stopSignalsPosted (sts1 ! i) \<and>
     (\<exists>st'. signals_sync world_size (answers i) (peers_of i sts1) (w1 i) (w2 i) (sts ! i)
              = Some (Inr st') \<and>
            st' = signals_process (MPI_Wait (w2 i)
                    (if signalsCallCounter (sts1 ! i) < Max (signalsCallCounter ` set sts1)
                     then signals_send (MPI_Wait (w1 i) (sts1 ! i)) else sts1 ! i)) \<and>
            signalsCallCounter st' = Max (signalsCallCounter ` set sts1) \<and>
            reqSignals st' = MPI_REQUEST_NULL)"
proof -
  let ?c = "signalsCallCounter (sts1 ! i)"
  let ?G = "Max (signalsCallCounter ` set sts1)"
  have i1: "i < length sts1" using i len by simp
  have loop: "signals_sync_loop world_size (answers i) (sts ! i) = Some (sts1 ! i)"
    using loops i by simp
  have G: "Allreduce_MAX ?c (peers_of i sts1) = ?G"
    by (simp add: Allreduce_MAX_Max peers_of_set [OF i1])
  have fin: "finite (signalsCallCounter ` set sts1)" by simp
  have mem: "?c \<in> signalsCallCounter ` set sts1" using i1 by simp
  have le: "?c \<le> ?G" using mem fin by (rule Max_ge [rotated])
  have "?G \<in> signalsCallCounter ` set sts1" using mem by (intro Max_in) auto
  then obtain b where b: "b \<in> set sts1" "signalsCallCounter b = ?G" by auto
  have "unat ?G \<le> unat ?c + 1" using lag b i1 by (metis nth_mem)
  then have near: "?c = ?G \<or> ?c + 1 = ?G"
  proof (cases "unat ?c < unat ?G")
    case True
    assume "unat ?G \<le> unat ?c + 1"
    with True have "?G = ?c + 1" by (rule word_succ)
    then show ?thesis by simp
  next
    case False
    with le have "unat ?c = unat ?G" by (simp add: word_le_nat_alt)
    then show ?thesis by (simp add: word_unat_eq_iff)
  qed
  have cnt: "signalsCallCounter (signals_process (MPI_Wait (w2 i)
               (if ?c < ?G then signals_send (MPI_Wait (w1 i) (sts1 ! i)) else sts1 ! i))) = ?G"
    using near le by (auto simp: process_frame MPI_Wait_def complete_frame send_frame)
  show ?thesis
    using sync_loop_exit [OF loop] finish_cases [OF G [symmetric] near] cnt
    by (simp add: signals_sync_def loop process_frame MPI_Wait_def complete_frame)
qed

theorem signals_sync_exit_witness:
  "signals_sync_loop 2 [] rank_ahead = Some rank_ahead \<and>
   signals_sync_loop 2 [Some from_ahead] rank_behind =
     Some (signals_poll (Some from_ahead) rank_behind) \<and>
   signalsCallCounter (signals_poll (Some from_ahead) rank_behind) = 2 \<and>
   map_option (map_sum id signalsCallCounter)
     (signals_sync 2 [] [2] from_behind from_behind rank_ahead) = Some (Inr 3) \<and>
   map_option (map_sum id signalsCallCounter)
     (signals_sync 2 [Some from_ahead] [3] from_ahead from_ahead rank_behind) = Some (Inr 3) \<and>
   map_option (map_sum id reqSignals)
     (signals_sync 2 [Some from_ahead] [3] from_ahead from_ahead rank_behind) =
     Some (Inr MPI_REQUEST_NULL)"
proof -
  let ?sts = "[rank_ahead, rank_behind]"
  let ?sts1 = "[rank_ahead, signals_poll (Some from_ahead) rank_behind]"
  let ?answers = "\<lambda>i :: nat. if i = 0 then [] else [Some from_ahead]"
  have l0: "signals_sync_loop 2 [] rank_ahead = Some rank_ahead"
    by (simp add: rank_ahead_def)
  have l1: "signals_sync_loop 2 [Some from_ahead] rank_behind =
              Some (signals_poll (Some from_ahead) rank_behind)"
    by (simp add: rank_behind_def from_ahead_def signals_poll_def MPI_Test_def complete_def
        signals_sum_def signals_process_def signals_send_def Let_def)
  have c0: "signalsCallCounter rank_ahead = 3" by (simp add: rank_ahead_def)
  have c1: "signalsCallCounter (signals_poll (Some from_ahead) rank_behind) = 2"
    by (simp add: rank_behind_def from_ahead_def signals_poll_def MPI_Test_def complete_def
        signals_process_def signals_send_def Let_def)
  have loops: "\<forall>i<length ?sts. signals_sync_loop 2 (?answers i) (?sts ! i) = Some (?sts1 ! i)"
    using l0 l1 by (simp add: less_Suc_eq numeral_2_eq_2)
  have lag: "\<forall>a\<in>set ?sts1. \<forall>b\<in>set ?sts1.
               unat (signalsCallCounter a) \<le> unat (signalsCallCounter b) + 1"
    by (simp add: c0 c1)
  have p0: "peers_of 0 ?sts1 = [2]" and p1: "peers_of 1 ?sts1 = [3]"
    by (simp_all add: peers_of_def c0 c1)
  have M: "Max (signalsCallCounter ` set ?sts1) = 3" by (simp add: c0 c1)
  from signals_sync_exit [of ?sts1 ?sts 2 ?answers 0 "\<lambda>i. from_behind" "\<lambda>i. from_behind"]
       loops lag
  have r0: "map_option (map_sum id signalsCallCounter)
     (signals_sync 2 [] [2] from_behind from_behind rank_ahead) = Some (Inr 3)"
    unfolding p0 M by auto
  from signals_sync_exit [of ?sts1 ?sts 2 ?answers 1 "\<lambda>i. from_ahead" "\<lambda>i. from_ahead"]
       loops lag
  have r1: "map_option (map_sum id signalsCallCounter)
     (signals_sync 2 [Some from_ahead] [3] from_ahead from_ahead rank_behind) = Some (Inr 3) \<and>
     map_option (map_sum id reqSignals)
     (signals_sync 2 [Some from_ahead] [3] from_ahead from_ahead rank_behind) =
     Some (Inr MPI_REQUEST_NULL)"
    unfolding p1 M by auto
  show ?thesis using l0 l1 c1 r0 r1 by simp
qed

subsection \<open>Who writes the counters of posted rounds\<close>

lemma poll_frame: "sendRecvPosted (signals_poll a st) = sendRecvPosted st"
  by (simp add: signals_poll_def MPI_Test_def send_frame process_frame complete_frame
      split: request.splits option.splits)

lemma sync_loop_frame:
  "signals_sync_loop n as st = Some st1 \<Longrightarrow> sendRecvPosted st1 = sendRecvPosted st"
  by (induction as arbitrary: st) (auto simp: poll_frame split: if_splits)

lemma sync_finish_frame:
  "signals_sync_finish ps w1 w2 st = Inr st' \<Longrightarrow> sendRecvPosted st' = sendRecvPosted st"
  by (auto simp: signals_sync_finish_def Let_def MPI_Wait_def send_frame process_frame
      complete_frame split: if_splits)

text \<open>
  C9 as stated fails: \<^verbatim>\<open>signals_init\<close> writes the variable \<^verbatim>\<open>sendRecvPosted\<close> of the namespace
  (five before, zero after), and so does \<^verbatim>\<open>save\<close> when it has performed a round (six after).
\<close>

theorem sendRecvPosted_written_counterexample:
  "sendRecvPosted posted_five = 5 \<and>
   sendRecvPosted (signals_init posted_five) = 0 \<and>
   sendRecvPosted (res_cluster (save 2 0 2 always_replace False posted_five worker
                                  (snd KeyedTTEntry_init) 9 30 False 1 5 77 12)) = 6"
  by code_simp

text \<open>
  C9, amended: the variable \<^verbatim>\<open>sendRecvPosted\<close> of the namespace is set to zero by
  \<^verbatim>\<open>signals_init\<close>, incremented by one by \<^verbatim>\<open>save\<close> exactly when \<^verbatim>\<open>save\<close> performs a round, and
  left as it is by \<^verbatim>\<open>signals_send\<close>, \<^verbatim>\<open>signals_process\<close>, \<^verbatim>\<open>signals_poll\<close> and \<^verbatim>\<open>signals_sync\<close>;
  the counter of a cache is zero after the constructor, incremented by one by
  \<^verbatim>\<open>handle_buffer\<close>, left as it is by \<^verbatim>\<open>replace\<close>, and changed by \<^verbatim>\<open>save\<close> only through the
  round it performs.
\<close>

theorem sendRecvPosted_writers:
  "sendRecvPosted (signals_init st) = 0 \<and>
   sendRecvPosted
     (res_cluster (save TTCacheSize world_rank world_size TTEntry_save completed st thread tte
                     k v PvHit b d m ev)) =
     (if d > 3 * ONE_PLY \<and> of_nat TTCacheSize \<le> TTCacheCounter (ttCache thread) + 1 \<and>
         (list_all (\<lambda>q. q = MPI_REQUEST_NULL) (reqsTTSendRecv (ttCache thread)) \<or> completed)
      then sendRecvPosted st + 1 else sendRecvPosted st) \<and>
   sendRecvPosted (signals_send st) = sendRecvPosted st \<and>
   sendRecvPosted (signals_process st) = sendRecvPosted st \<and>
   sendRecvPosted (signals_poll arrival st) = sendRecvPosted st \<and>
   (\<forall>st'. signals_sync world_size answers peers w1 w2 st = Some (Inr st') \<longrightarrow>
          sendRecvPosted st' = sendRecvPosted st) \<and>
   this_sendRecvPosted (ClusterCache_init TTCacheSize world_size) = 0 \<and>
   this_sendRecvPosted (fst (handle_buffer TTCacheSize world_rank world_size cc)) =
     this_sendRecvPosted cc + 1 \<and>
   this_sendRecvPosted (snd (replace e cc)) = this_sendRecvPosted cc \<and>
   this_sendRecvPosted
     (ttCache (res_thread (save TTCacheSize world_rank world_size TTEntry_save completed st
                             thread tte k v PvHit b d m ev))) =
     (if d > 3 * ONE_PLY \<and> of_nat TTCacheSize \<le> TTCacheCounter (ttCache thread) + 1 \<and>
         (list_all (\<lambda>q. q = MPI_REQUEST_NULL) (reqsTTSendRecv (ttCache thread)) \<or> completed)
      then this_sendRecvPosted (ttCache thread) + 1 else this_sendRecvPosted (ttCache thread))"
proof -
  have sc: "this_sendRecvPosted
     (ttCache (res_thread (save TTCacheSize world_rank world_size TTEntry_save completed st
                             thread tte k v PvHit b d m ev))) =
     (if d > 3 * ONE_PLY \<and> of_nat TTCacheSize \<le> TTCacheCounter (ttCache thread) + 1 \<and>
         (list_all (\<lambda>q. q = MPI_REQUEST_NULL) (reqsTTSendRecv (ttCache thread)) \<or> completed)
      then this_sendRecvPosted (ttCache thread) + 1 else this_sendRecvPosted (ttCache thread))"
    by (simp add: save_def Let_def case_prod_beta replace_frame Testall_flag
        handle_buffer_posted)
  have sv: "sendRecvPosted
     (res_cluster (save TTCacheSize world_rank world_size TTEntry_save completed st thread tte
                     k v PvHit b d m ev)) =
     (if d > 3 * ONE_PLY \<and> of_nat TTCacheSize \<le> TTCacheCounter (ttCache thread) + 1 \<and>
         (list_all (\<lambda>q. q = MPI_REQUEST_NULL) (reqsTTSendRecv (ttCache thread)) \<or> completed)
      then sendRecvPosted st + 1 else sendRecvPosted st)"
    by (simp add: save_def Let_def case_prod_beta replace_frame Testall_flag)
  have sy: "\<forall>st'. signals_sync world_size answers peers w1 w2 st = Some (Inr st') \<longrightarrow>
          sendRecvPosted st' = sendRecvPosted st"
    by (auto simp: signals_sync_def split: option.splits
        dest!: sync_loop_frame sync_finish_frame)
  show ?thesis
    using sv sy sc
    by (simp add: signals_init_def send_frame process_frame poll_frame ClusterCache_init_def
        handle_buffer_posted replace_frame)
qed

theorem sendRecvPosted_writers_witness:
  "sendRecvPosted (signals_poll None posted_five) = 5 \<and>
   sendRecvPosted (signals_init posted_five) = 0 \<and>
   map_option (map_sum id sendRecvPosted)
     (signals_sync 2 [] [2] from_behind from_behind (rank_ahead\<lparr>sendRecvPosted := 9\<rparr>)) =
     Some (Inr 9)"
proof -
  have r: "signals_sync 2 [] [2] from_behind from_behind (rank_ahead\<lparr>sendRecvPosted := 9\<rparr>) =
    Some (Inr (signals_process (MPI_Wait from_behind (rank_ahead\<lparr>sendRecvPosted := 9\<rparr>))))"
    by (simp add: signals_sync_def signals_sync_finish_def rank_ahead_def Allreduce_MAX_def Let_def)
  show ?thesis
    using sendRecvPosted_writers [of posted_five]
      sendRecvPosted_writers [where st = "rank_ahead\<lparr>sendRecvPosted := 9\<rparr>" and world_size = 2
        and answers = "[]" and peers = "[2]" and ?w1.0 = from_behind and ?w2.0 = from_behind]
    by (simp add: r posted_five_def static_init_def)
qed

subsection \<open>The vote\<close>

lemma sint_std_min: "sint (std_min a b) = min (sint a) (sint b)"
  by (auto simp: std_min_def word_sless_alt)

lemma Min_insert_min:
  assumes "finite S"
  shows "Min (insert (min a b) S) = Min (insert (a :: int) (insert b S))"
proof (cases "S = {}")
  case True
  then show ?thesis by simp
next
  case False
  with assms show ?thesis by (simp add: min.assoc)
qed

lemma min_score_loop_fst:
  "sint (fst (min_score_loop xs (s, vs))) = Min (insert (sint s) ((\<lambda>x. sint (score x)) ` set xs))"
proof (induction xs arbitrary: s vs)
  case Nil
  show ?case by simp
next
  case (Cons x xs)
  have "Min (insert (min (sint s) (sint (score x))) ((\<lambda>x. sint (score x)) ` set xs)) =
        Min (insert (sint s) (insert (sint (score x)) ((\<lambda>x. sint (score x)) ` set xs)))"
    by (rule Min_insert_min) simp
  then show ?case by (simp add: Cons.IH sint_std_min)
qed

lemma min_score_loop_votes:
  "votes_at (snd (min_score_loop xs (s, vs))) m =
     (if m \<in> move ` set xs then 0 else votes_at vs m)"
  by (induction xs arbitrary: s vs) (auto simp: votes_at_def)

lemma votes_loop_sum:
  "votes_at (votes_loop ms xs vs) m =
     votes_at vs m + (\<Sum>x\<leftarrow>filter (\<lambda>x. move x = m) xs. score x - ms + depth x)"
  by (induction xs arbitrary: vs) (auto simp: votes_at_def)

lemma word_sum_list:
  "(\<Sum>x\<leftarrow>xs. (f x :: int32)) = word_of_int (\<Sum>x\<leftarrow>xs. sint (f x))"
  by (induction xs) simp_all

lemma sint_sum_list:
  "sint (\<Sum>x\<leftarrow>xs. (f x :: int32)) = signed_take_bit 31 (\<Sum>x\<leftarrow>xs. sint (f x))"
  by (simp add: word_sum_list [of f xs] signed_of_int)

lemma word_vote:
  "(\<Sum>x\<leftarrow>xs. score x - ms + depth x :: int32) =
     word_of_int (\<Sum>x\<leftarrow>xs. sint (score x) - sint ms + sint (depth x))"
  by (induction xs) simp_all

lemma sint_vote:
  "sint (\<Sum>x\<leftarrow>xs. score x - ms + depth x :: int32) =
     signed_take_bit 31 (\<Sum>x\<leftarrow>xs. sint (score x) - sint ms + sint (depth x))"
  by (simp add: word_vote signed_of_int)

lemma sint_vote_exact:
  assumes "- (2 ^ 31) \<le> (\<Sum>x\<leftarrow>xs. sint (score x) - sint ms + sint (depth x))"
    and "(\<Sum>x\<leftarrow>xs. sint (score x) - sint ms + sint (depth x)) < 2 ^ 31"
  shows "sint (\<Sum>x\<leftarrow>xs. score x - ms + depth x :: int32) =
     (\<Sum>x\<leftarrow>xs. sint (score x) - sint ms + sint (depth x))"
  using assms by (simp add: sint_vote signed_take_bit_int_eq_self)

lemma Max_above:
  assumes "\<not> (\<forall>x\<in>set xs. f x \<le> (b :: int))"
  shows "b < Max (f ` set xs)"
proof -
  from assms obtain y where y: "y \<in> set xs" "b < f y" by (auto simp: not_le)
  have "f y \<le> Max (f ` set xs)" using y(1) by (intro Max_ge) auto
  with y(2) show ?thesis by linarith
qed

lemma Max_below:
  assumes "\<forall>x\<in>set xs. f x \<le> (b :: int)"
  shows "Max (insert b (f ` set xs)) = b"
  using assms by (intro Max_eqI) auto

lemma Max_cons_above:
  assumes "\<not> (\<forall>x\<in>set xs. f x \<le> (b :: int))" "a \<le> b"
  shows "Max (insert a (f ` set xs)) = Max (f ` set xs) \<and> a \<noteq> Max (f ` set xs)"
proof -
  have lt: "b < Max (f ` set xs)" using assms(1) by (rule Max_above)
  from assms(1) have ne: "f ` set xs \<noteq> {}" by auto
  have "Max (insert a (f ` set xs)) = max a (Max (f ` set xs))"
    using ne by (simp add: Max_insert)
  with lt assms(2) show ?thesis by simp
qed

lemma best_loop_first_max:
  "sint (fst (best_loop vs xs (bv, mi))) =
     (if \<forall>x\<in>set xs. sint (votes_at vs (move x)) \<le> sint bv then sint bv
      else Max ((\<lambda>x. sint (votes_at vs (move x))) ` set xs)) \<and>
   snd (best_loop vs xs (bv, mi)) =
     (if \<forall>x\<in>set xs. sint (votes_at vs (move x)) \<le> sint bv then mi
      else the (List.find (\<lambda>x. sint (votes_at vs (move x)) =
                               Max ((\<lambda>x. sint (votes_at vs (move x))) ` set xs)) xs))"
proof (induction xs arbitrary: bv mi)
  case Nil
  show ?case by simp
next
  case (Cons x xs)
  let ?f = "\<lambda>x. sint (votes_at vs (move x))"
  show ?case
  proof (cases "bv <s votes_at vs (move x)")
    case True
    then have gt: "sint bv < ?f x" by (simp add: word_sless_alt)
    show ?thesis
    proof (cases "\<forall>y\<in>set xs. ?f y \<le> ?f x")
      case all: True
      then have "Max (insert (?f x) (?f ` set xs)) = ?f x" by (rule Max_below)
      with True gt all show ?thesis by (simp add: Cons.IH)
    next
      case False
      then have "Max (insert (?f x) (?f ` set xs)) = Max (?f ` set xs) \<and>
                 ?f x \<noteq> Max (?f ` set xs)"
        by (rule Max_cons_above) simp
      with True gt False show ?thesis by (auto simp: Cons.IH)
    qed
  next
    case le: False
    then have le': "?f x \<le> sint bv" by (simp add: word_sless_alt)
    show ?thesis
    proof (cases "\<forall>y\<in>set xs. ?f y \<le> sint bv")
      case True
      with le le' show ?thesis by (simp add: Cons.IH)
    next
      case False
      with le' have "Max (insert (?f x) (?f ` set xs)) = Max (?f ` set xs) \<and>
                 ?f x \<noteq> Max (?f ` set xs)"
        by (intro Max_cons_above)
      with le le' False show ?thesis by (auto simp: Cons.IH)
    qed
  qed
qed


text \<open>
  Beyond the range of \<^verbatim>\<open>int\<close> the total that decides is the wrapped one: of the two records
  of \<open>beyond_int\<close> the first has the total \<open>2147483667\<close>, which reads as \<open>-2147483629\<close>, and the
  second, with the total \<open>5\<close>, is selected.
\<close>

lemma pick_moves_wraps:
  "sint (votes_at (fst (snd (pick_moves_root (beyond_int ! 0) beyond_int))) 1) = - 2147483629 \<and>
   sint (votes_at (fst (snd (pick_moves_root (beyond_int ! 0) beyond_int))) 2) = 5 \<and>
   pick_moves beyond_int = mk 2 (- 10) 5 1"
  by code_simp

text \<open>
  C5: on the root, over the gathered records \<open>mis\<close> in rank order: \<open>minScore\<close> is the minimum
  of the scores; the vote of a move is the sum, in \<^verbatim>\<open>int\<close>, of \<open>score - minScore + depth\<close> over
  the records with that move, which is the sum of these numbers whenever that sum is an
  \<^verbatim>\<open>int\<close> (from \<open>-2147483648\<close> to \<open>2147483647\<close>); the record left in \<open>mi\<close>, which the broadcast
  hands to every rank, is the first record in rank order whose move has the maximum vote.
\<close>

theorem pick_moves_vote:
  assumes "mis \<noteq> []"
  shows "case pick_moves_root (mis ! 0) mis of
      (minScore, votes, mi) \<Rightarrow>
        sint minScore = Min ((\<lambda>x. sint (score x)) ` set mis) \<and>
        (\<forall>m. votes_at votes m =
               (\<Sum>x\<leftarrow>filter (\<lambda>x. move x = m) mis. score x - minScore + depth x)) \<and>
        (\<forall>m. - (2 ^ 31) \<le> (\<Sum>x\<leftarrow>filter (\<lambda>x. move x = m) mis.
                                sint (score x) - sint minScore + sint (depth x)) \<and>
             (\<Sum>x\<leftarrow>filter (\<lambda>x. move x = m) mis.
                  sint (score x) - sint minScore + sint (depth x)) < 2 ^ 31 \<longrightarrow>
             sint (votes_at votes m) =
               (\<Sum>x\<leftarrow>filter (\<lambda>x. move x = m) mis.
                  sint (score x) - sint minScore + sint (depth x))) \<and>
        List.find (\<lambda>x. sint (votes_at votes (move x)) =
                        Max ((\<lambda>x. sint (votes_at votes (move x))) ` set mis)) mis = Some mi \<and>
        pick_moves mis = mi"
proof -
  obtain x xs where mis: "mis = x # xs" using assms by (cases mis) auto
  let ?ms = "fst (min_score_loop mis (score (mis ! 0), Map.empty))"
  have ms: "sint ?ms = Min ((\<lambda>x. sint (score x)) ` set mis)"
    unfolding min_score_loop_fst by (simp add: mis)
  let ?v0 = "snd (min_score_loop mis (score (mis ! 0), Map.empty))"
  have v0: "votes_at ?v0 m = 0" for m
    by (simp add: min_score_loop_votes) (simp add: votes_at_def)
  let ?vs = "votes_loop ?ms mis ?v0"
  have vs: "votes_at ?vs m = (\<Sum>x\<leftarrow>filter (\<lambda>x. move x = m) mis. score x - ?ms + depth x)" for m
    by (simp add: votes_loop_sum v0)
  have ex: "sint (votes_at ?vs m) =
              (\<Sum>x\<leftarrow>filter (\<lambda>x. move x = m) mis. sint (score x) - sint ?ms + sint (depth x))"
    if "- (2 ^ 31) \<le> (\<Sum>x\<leftarrow>filter (\<lambda>x. move x = m) mis.
                            sint (score x) - sint ?ms + sint (depth x))"
      and "(\<Sum>x\<leftarrow>filter (\<lambda>x. move x = m) mis.
              sint (score x) - sint ?ms + sint (depth x)) < 2 ^ 31" for m
    unfolding vs using that by (rule sint_vote_exact)
  let ?f = "\<lambda>x. sint (votes_at ?vs (move x))"
  let ?M = "Max (?f ` set mis)"
  have fnd: "List.find (\<lambda>x. ?f x = ?M) mis =
             Some (snd (best_loop ?vs mis (votes_at ?vs (move (mis ! 0)), mis ! 0)))"
  proof (cases "\<forall>y\<in>set mis. ?f y \<le> ?f (mis ! 0)")
    case True
    then have "Max (insert (?f (mis ! 0)) (?f ` set mis)) = ?f (mis ! 0)" by (rule Max_below)
    then have "?M = ?f x" by (simp add: mis)
    with True show ?thesis by (simp add: best_loop_first_max mis)
  next
    case False
    then have "?M \<in> ?f ` set mis" by (intro Max_in) auto
    then obtain y where "y \<in> set mis" "?f y = ?M" by auto
    then have "List.find (\<lambda>x. ?f x = ?M) mis \<noteq> None" by (auto simp: find_None_iff)
    with False show ?thesis by (auto simp: best_loop_first_max)
  qed
  have root: "pick_moves_root (mis ! 0) mis =
      (?ms, ?vs, snd (best_loop ?vs mis (votes_at ?vs (move (mis ! 0)), mis ! 0)))"
    by (simp add: pick_moves_root_def Let_def case_prod_beta)
  show ?thesis
    unfolding root pick_moves_def using ms vs ex fnd by simp
qed

theorem pick_moves_vote_witness:
  "four_ranks \<noteq> [] \<and>
   sint (fst (pick_moves_root (four_ranks ! 0) four_ranks)) = 95 \<and>
   (\<Sum>x\<leftarrow>filter (\<lambda>x. move x = 1) four_ranks. sint (score x) - 95 + sint (depth x)) = 50 \<and>
   (\<Sum>x\<leftarrow>filter (\<lambda>x. move x = 2) four_ranks. sint (score x) - 95 + sint (depth x)) = 48 \<and>
   sint (votes_at (fst (snd (pick_moves_root (four_ranks ! 0) four_ranks))) 1) = 50 \<and>
   sint (votes_at (fst (snd (pick_moves_root (four_ranks ! 0) four_ranks))) 2) = 48 \<and>
   pick_moves four_ranks = mk 1 100 20 0 \<and>
   rank (pick_moves four_ranks) = 0 \<and>
   (\<forall>r pv. pv_transfer r (pick_moves four_ranks) pv = [])"
proof -
  let ?R = "pick_moves_root (four_ranks ! 0) four_ranks"
  have ne: "four_ranks \<noteq> []" by (simp add: four_ranks_def)
  have ms: "sint (fst ?R) = 95" by code_simp
  have ta: "(\<Sum>x\<leftarrow>filter (\<lambda>x. move x = 1) four_ranks.
               sint (score x) - 95 + sint (depth x)) = 50"
    by (simp add: four_ranks_def mk_def)
  have tb: "(\<Sum>x\<leftarrow>filter (\<lambda>x. move x = 2) four_ranks.
               sint (score x) - 95 + sint (depth x)) = 48"
    by (simp add: four_ranks_def mk_def)
  have ex: "\<forall>m. - (2 ^ 31) \<le> (\<Sum>x\<leftarrow>filter (\<lambda>x. move x = m) four_ranks.
                                sint (score x) - sint (fst ?R) + sint (depth x)) \<and>
             (\<Sum>x\<leftarrow>filter (\<lambda>x. move x = m) four_ranks.
                  sint (score x) - sint (fst ?R) + sint (depth x)) < 2 ^ 31 \<longrightarrow>
             sint (votes_at (fst (snd ?R)) m) =
               (\<Sum>x\<leftarrow>filter (\<lambda>x. move x = m) four_ranks.
                  sint (score x) - sint (fst ?R) + sint (depth x))"
    using pick_moves_vote [OF ne] unfolding case_prod_beta
    by (rule conjunct1 [OF conjunct2 [OF conjunct2]])
  have a: "sint (votes_at (fst (snd ?R)) 1) = 50"
    using ex [rule_format, of 1] unfolding ms ta by simp
  have b: "sint (votes_at (fst (snd ?R)) 2) = 48"
    using ex [rule_format, of 2] unfolding ms tb by simp
  have c: "pick_moves four_ranks = mk 1 100 20 0" by code_simp
  then have d: "rank (pick_moves four_ranks) = 0" by (simp add: mk_def)
  then have e: "\<forall>r pv. pv_transfer r (pick_moves four_ranks) pv = []"
    by (simp add: pv_transfer_def)
  show ?thesis using ne ms ta tb a b c d e by simp
qed

subsection \<open>The input relay\<close>

lemma poll_input_Some: "True \<in> set flags \<Longrightarrow> poll_input flags \<noteq> None"
  by (induction flags) auto

lemma poll_input_None: "True \<notin> set flags \<Longrightarrow> poll_input flags = None"
  by (induction flags) auto

lemma int_of_size_small: "n < 2 ^ 31 \<Longrightarrow> int_of_size n = int n"
  by (simp add: int_of_size_def signed_of_nat signed_take_bit_int_eq_self)

lemma std_getline_line:
  "fst (snd (std_getline input str)) =
     (if eofbit input \<or> failbit input then str
      else takeWhile (\<lambda>c. c \<noteq> CHR 0x0A) (unread input))"
  by (simp add: std_getline_def Let_def split: list.split)

lemma std_getline_length:
  "length (fst (snd (std_getline input str))) \<le> max (length str) (length (unread input))"
proof -
  have "length (takeWhile (\<lambda>c. c \<noteq> CHR 0x0A) (unread input)) \<le> length (unread input)"
    by (rule length_takeWhile_le)
  then show ?thesis unfolding std_getline_line by (simp add: le_max_iff_disj)
qed

lemma getline_other_some:
  assumes "length line < 2 ^ 31"
  shows "getline_other flags (int_of_size (length line), line, state) s =
           (if True \<in> set flags then Some (Inr (line, state)) else None)"
proof (cases "True \<in> set flags")
  case True
  then obtain k where "poll_input flags = Some k"
    using poll_input_Some [of flags] by auto
  with True assms show ?thesis
    by (simp add: getline_other_def int_of_size_small Let_def)
next
  case False
  then show ?thesis by (simp add: getline_other_def poll_input_None)
qed

lemma std_getline_eof:
  "eofbit input \<or> failbit input \<or> unread input = [] \<Longrightarrow> \<not> snd (snd (std_getline input str))"
  by (cases "unread input = []") (auto simp: std_getline_def Let_def)

lemma std_getline_empty_line:
  "\<not> eofbit input \<Longrightarrow> \<not> failbit input \<Longrightarrow> unread input = CHR 0x0A # rest \<Longrightarrow>
   std_getline input str = (\<lparr>unread = rest, eofbit = False, failbit = False\<rparr>, [], True)"
  by (simp add: std_getline_def Let_def)

text \<open>
  C6: one call of \<^verbatim>\<open>getline\<close> on all ranks, where the root's \<^verbatim>\<open>std::getline\<close> yields \<open>line\<close>
  and \<open>state\<close>. The root returns \<open>state\<close> with \<open>line\<close>; every other rank returns as soon as
  one of its tests sees the broadcast complete, and then with the same \<open>state\<close> and the
  same \<open>line\<close>. At the end of the input \<open>state\<close> is false; on an empty line it is true and
  \<open>line\<close> is empty.
\<close>

theorem getline_relay:
  assumes "length str < 2 ^ 31" and "length (unread input) < 2 ^ 31"
  shows "case std_getline input str of
      (input1, line, state) \<Rightarrow>
        length (getline input str others) = Suc (length others) \<and>
        getline input str others ! 0 = Some (Inr (line, state)) \<and>
        (\<forall>i<length others.
           getline input str others ! Suc i =
             (if True \<in> set (snd (others ! i)) then Some (Inr (line, state)) else None)) \<and>
        (eofbit input \<or> failbit input \<or> unread input = [] \<longrightarrow> \<not> state) \<and>
        (\<not> eofbit input \<and> \<not> failbit input \<and> (\<exists>rest. unread input = CHR 0x0A # rest)
           \<longrightarrow> state \<and> line = [])"
proof -
  obtain input1 line state where g: "std_getline input str = (input1, line, state)"
    by (cases "std_getline input str") auto
  have "length line \<le> max (length str) (length (unread input))"
    using std_getline_length [of input str] by (simp add: g)
  with assms have small: "length line < 2 ^ 31" by simp
  have eof: "eofbit input \<or> failbit input \<or> unread input = [] \<longrightarrow> \<not> state"
    using std_getline_eof [of input str] by (simp add: g)
  have empty: "\<not> eofbit input \<and> \<not> failbit input \<and> (\<exists>rest. unread input = CHR 0x0A # rest)
           \<longrightarrow> state \<and> line = []"
    using std_getline_empty_line [of input _ str] g by auto
  have nn: "\<not> int_of_size (length line) < 0"
    by (simp add: int_of_size_small [OF small])
  show ?thesis
    using eof empty
    by (simp add: g getline_def getline_root_def Let_def getline_other_some [OF small]
        case_prod_beta nn)
qed

theorem getline_relay_witness:
  "length ''old'' < 2 ^ 31 \<and> length (unread startpos) < 2 ^ 31 \<and>
   getline startpos ''old'' [(''a'', [False, True]), (''b'', [False])] ! 0 =
     Some (Inr (''position startpos'', True)) \<and>
   getline startpos ''old'' [(''a'', [False, True]), (''b'', [False])] =
     [Some (Inr (''position startpos'', True)), Some (Inr (''position startpos'', True)), None] \<and>
   getline (fst (std_getline startpos ''old'')) ''old'' [(''a'', [True])] =
     [Some (Inr ([], True)), Some (Inr ([], True))] \<and>
   getline at_end ''old'' [(''a'', [True])] = [Some (Inr ([], False)), Some (Inr ([], False))]"
proof -
  have p1: "length ''old'' < 2 ^ 31" by simp
  have p2: "length (unread startpos) < 2 ^ 31" by (simp add: startpos_def)
  have "getline startpos ''old'' [(''a'', [False, True]), (''b'', [False])] ! 0 =
          Some (Inr (fst (snd (std_getline startpos ''old'')),
                     snd (snd (std_getline startpos ''old''))))"
    using getline_relay [OF p1 p2, of "[(''a'', [False, True]), (''b'', [False])]"]
    by (simp add: case_prod_beta)
  also have "\<dots> = Some (Inr (''position startpos'', True))" by code_simp
  finally have a: "getline startpos ''old'' [(''a'', [False, True]), (''b'', [False])] ! 0 =
     Some (Inr (''position startpos'', True))" .
  have b: "getline startpos ''old'' [(''a'', [False, True]), (''b'', [False])] =
     [Some (Inr (''position startpos'', True)), Some (Inr (''position startpos'', True)), None]"
    by code_simp
  have c: "getline (fst (std_getline startpos ''old'')) ''old'' [(''a'', [True])] =
     [Some (Inr ([], True)), Some (Inr ([], True))]"
    by code_simp
  have d: "getline at_end ''old'' [(''a'', [True])] = [Some (Inr ([], False)), Some (Inr ([], False))]"
    by code_simp
  show ?thesis using p1 p2 a b c d by simp
qed

subsection \<open>The heap of the cache\<close>

lemma compare_dp: "compare a b \<longleftrightarrow> dp b < dp a"
  by (simp add: compare_def dp_def)

lemma is_heap_upto: "is_heap compare xs \<longleftrightarrow> heap_upto (length xs) xs"
  by (auto simp: is_heap_def heap_upto_def compare_dp list_all_iff not_less)

lemma swap_nth:
  assumes "a < length xs" "b < length xs" "a \<noteq> b"
  shows "xs[a := xs ! b, b := xs ! a] ! a = xs ! b"
    and "xs[a := xs ! b, b := xs ! a] ! b = xs ! a"
    and "k \<noteq> a \<Longrightarrow> k \<noteq> b \<Longrightarrow> xs[a := xs ! b, b := xs ! a] ! k = xs ! k"
  using assms by simp_all

lemma up_step:
  assumes inv: "heap_but_up n xs i" and i: "0 < i" "i < n" and n: "n \<le> length xs"
      and lt: "dp (xs ! i) < dp (xs ! ((i - 1) div 2))"
  shows "heap_but_up n (xs[(i - 1) div 2 := xs ! i, i := xs ! ((i - 1) div 2)]) ((i - 1) div 2)"
proof -
  define p where "p = (i - 1) div 2"
  define ys where "ys = xs[p := xs ! i, i := xs ! p]"
  have pi: "p < i" unfolding p_def using i by arith
  have A: "dp (xs ! ((j - 1) div 2)) \<le> dp (xs ! j)" if "0 < j" "j < n" "j \<noteq> i" for j
    using inv that unfolding heap_but_up_def by blast
  have B: "dp (xs ! p) \<le> dp (xs ! j)" if "0 < j" "j < n" "(j - 1) div 2 = i" for j
    using inv that i unfolding heap_but_up_def p_def by blast
  have lt': "dp (xs ! i) < dp (xs ! p)" using lt by (simp add: p_def)
  have len: "p < length xs" "i < length xs" "p \<noteq> i" using pi i n by simp_all
  have yp: "ys ! p = xs ! i" and yi: "ys ! i = xs ! p"
    and yk: "\<And>k. k \<noteq> p \<Longrightarrow> k \<noteq> i \<Longrightarrow> ys ! k = xs ! k"
    unfolding ys_def using swap_nth [OF len] by simp_all
  have "heap_but_up n ys p"
    unfolding heap_but_up_def
  proof (intro conjI allI impI)
    fix j
    assume "0 < j \<and> j < n \<and> j \<noteq> p"
    then have j: "0 < j" "j < n" "j \<noteq> p" by auto
    define q where "q = (j - 1) div 2"
    have qj: "q < j" unfolding q_def using j(1) by arith
    have "dp (ys ! q) \<le> dp (ys ! j)"
    proof (cases "j = i")
      case True
      then have "q = p" by (simp add: q_def p_def)
      with True lt' show ?thesis by (simp add: yp yi)
    next
      case False
      have yj: "ys ! j = xs ! j" using j(3) False by (rule yk)
      have Aj: "dp (xs ! q) \<le> dp (xs ! j)" using A [OF j(1,2) False] by (simp add: q_def)
      consider "q = i" | "q = p" | "q \<noteq> i" "q \<noteq> p" by blast
      then show ?thesis
      proof cases
        case 1
        have "dp (xs ! p) \<le> dp (xs ! j)" using B [OF j(1,2)] 1 by (simp add: q_def)
        with 1 show ?thesis by (simp add: yi yj)
      next
        case 2
        with Aj lt' show ?thesis by (simp add: yp yj)
      next
        case 3
        then have "ys ! q = xs ! q" by (intro yk)
        with Aj show ?thesis by (simp add: yj)
      qed
    qed
    then show "dp (ys ! ((j - 1) div 2)) \<le> dp (ys ! j)" by (simp only: q_def)
  next
    fix j
    assume "0 < j \<and> j < n \<and> (j - 1) div 2 = p \<and> 0 < p"
    then have j: "0 < j" "j < n" "(j - 1) div 2 = p" "0 < p" by auto
    define g where "g = (p - 1) div 2"
    have gp: "g < p" unfolding g_def using j(4) by arith
    have pn: "p < n" using pi i by simp
    have jp: "j \<noteq> p" using j(1,3) by arith
    have yg: "ys ! g = xs ! g" using gp pi by (intro yk) simp_all
    have 1: "dp (xs ! g) \<le> dp (xs ! p)"
      using A [OF j(4) pn] pi by (simp add: g_def)
    have "dp (ys ! g) \<le> dp (ys ! j)"
    proof (cases "j = i")
      case True
      with 1 show ?thesis by (simp add: yg yi)
    next
      case False
      have "dp (xs ! p) \<le> dp (xs ! j)" using A [OF j(1,2) False] j(3) by simp
      moreover have "ys ! j = xs ! j" using jp False by (rule yk)
      ultimately show ?thesis using 1 by (simp add: yg)
    qed
    then show "dp (ys ! ((p - 1) div 2)) \<le> dp (ys ! j)" by (simp only: g_def)
  qed
  then show ?thesis by (simp add: ys_def p_def)
qed

lemma down_step:
  assumes inv: "heap_but_down n xs i" and c: "c < n" "(c - 1) div 2 = i" "0 < c" and n: "n \<le> length xs"
      and lt: "dp (xs ! c) < dp (xs ! i)"
      and best: "\<forall>j. 0 < j \<and> j < n \<and> (j - 1) div 2 = i \<longrightarrow> dp (xs ! c) \<le> dp (xs ! j)"
  shows "heap_but_down n (xs[i := xs ! c, c := xs ! i]) c"
proof -
  define ys where "ys = xs[i := xs ! c, c := xs ! i]"
  have ic: "i < c" using c by arith
  have A: "dp (xs ! ((j - 1) div 2)) \<le> dp (xs ! j)" if "0 < j" "j < n" "(j - 1) div 2 \<noteq> i" for j
    using inv that unfolding heap_but_down_def by blast
  have B: "dp (xs ! ((i - 1) div 2)) \<le> dp (xs ! j)" if "0 < j" "j < n" "(j - 1) div 2 = i" "0 < i" for j
    using inv that unfolding heap_but_down_def by blast
  have C: "dp (xs ! c) \<le> dp (xs ! j)" if "0 < j" "j < n" "(j - 1) div 2 = i" for j
    using best that by blast
  have len: "i < length xs" "c < length xs" "i \<noteq> c" using ic c n by simp_all
  have yi: "ys ! i = xs ! c" and yc: "ys ! c = xs ! i"
    and yk: "\<And>k. k \<noteq> i \<Longrightarrow> k \<noteq> c \<Longrightarrow> ys ! k = xs ! k"
    unfolding ys_def using swap_nth [OF len] by simp_all
  have "heap_but_down n ys c"
    unfolding heap_but_down_def
  proof (intro conjI allI impI)
    fix j
    assume "0 < j \<and> j < n \<and> (j - 1) div 2 \<noteq> c"
    then have j: "0 < j" "j < n" "(j - 1) div 2 \<noteq> c" by auto
    define q where "q = (j - 1) div 2"
    have qj: "q < j" unfolding q_def using j(1) by arith
    have qc: "q \<noteq> c" using j(3) by (simp add: q_def)
    have "dp (ys ! q) \<le> dp (ys ! j)"
    proof (cases "q = i")
      case True
      have Cj: "dp (xs ! c) \<le> dp (xs ! j)" using C [OF j(1,2)] True by (simp add: q_def)
      show ?thesis
      proof (cases "j = c")
        case True
        with \<open>q = i\<close> lt show ?thesis by (simp add: yi yc)
      next
        case False
        have "j \<noteq> i" using qj True by simp
        then have "ys ! j = xs ! j" using False by (rule yk)
        with True Cj show ?thesis by (simp add: yi)
      qed
    next
      case False
      have Aj: "dp (xs ! q) \<le> dp (xs ! j)" using A [OF j(1,2)] False by (simp add: q_def)
      have jc: "j \<noteq> c" using False c(2) by (auto simp: q_def)
      have yq: "ys ! q = xs ! q" using False qc by (rule yk)
      show ?thesis
      proof (cases "j = i")
        case True
        have "0 < i" using True j(1) by simp
        have "dp (xs ! q) \<le> dp (xs ! c)"
          using B [OF c(3,1,2) \<open>0 < i\<close>] True by (simp add: q_def)
        with True show ?thesis by (simp add: yq yi)
      next
        case False
        then have "ys ! j = xs ! j" using jc by (rule yk)
        with Aj show ?thesis by (simp add: yq)
      qed
    qed
    then show "dp (ys ! ((j - 1) div 2)) \<le> dp (ys ! j)" by (simp only: q_def)
  next
    fix j
    assume "0 < j \<and> j < n \<and> (j - 1) div 2 = c \<and> 0 < c"
    then have j: "0 < j" "j < n" "(j - 1) div 2 = c" by auto
    have jc: "c < j" using j(1,3) by arith
    have ji: "(j - 1) div 2 \<noteq> i" using j(3) ic by simp
    have 1: "dp (xs ! c) \<le> dp (xs ! j)" using A [OF j(1,2) ji] j(3) by simp
    have "ys ! j = xs ! j" using jc ic by (intro yk) simp_all
    with 1 show "dp (ys ! ((c - 1) div 2)) \<le> dp (ys ! j)"
      using c(2) by (simp add: yi)
  qed
  then show ?thesis by (simp add: ys_def)
qed


lemma parent_child:
  "0 < (j :: nat) \<Longrightarrow> (j - 1) div 2 = i \<longleftrightarrow> j = 2 * i + 1 \<or> j = 2 * i + 2"
  by arith

lemma sift_up_length [simp]: "length (sift_up cmp xs i) = length xs"
proof (induction cmp xs i rule: sift_up.induct)
  case (1 cmp xs i)
  show ?case
    by (subst sift_up.simps) (simp add: 1 Let_def)
qed

lemma sift_up_mset: "i < length xs \<Longrightarrow> mset (sift_up cmp xs i) = mset xs"
proof (induction cmp xs i rule: sift_up.induct)
  case (1 cmp xs i)
  show ?case
  proof (cases "i \<noteq> 0 \<and> cmp (xs ! ((i - 1) div 2)) (xs ! i)")
    case True
    let ?p = "(i - 1) div 2"
    have p: "?p < length xs" using "1.prems" by arith
    have "mset (sift_up cmp (xs[?p := xs ! i, i := xs ! ?p]) ?p) = mset (xs[?p := xs ! i, i := xs ! ?p])"
      using True p by (intro "1.IH") simp_all
    also have "\<dots> = mset xs" using p "1.prems" by (simp add: mset_swap)
    finally show ?thesis using True by (subst sift_up.simps) (simp add: Let_def)
  next
    case False
    then show ?thesis by (subst sift_up.simps) (auto simp: Let_def)
  qed
qed

lemma sift_up_heap:
  assumes "i < n" "n \<le> length xs" "heap_but_up n xs i"
  shows "heap_upto n (sift_up compare xs i)"
  using assms
proof (induction "compare" xs i rule: sift_up.induct)
  case (1 xs i)
  let ?p = "(i - 1) div 2"
  show ?case
  proof (cases "i = 0")
    case True
    with "1.prems" show ?thesis
      by (subst sift_up.simps) (auto simp: heap_but_up_def heap_upto_def)
  next
    case False
    show ?thesis
    proof (cases "compare (xs ! ?p) (xs ! i)")
      case True
      then have lt: "dp (xs ! i) < dp (xs ! ?p)" by (simp add: compare_dp)
      have "heap_but_up n (xs[?p := xs ! i, i := xs ! ?p]) ?p"
        using "1.prems" False lt by (intro up_step) simp_all
      moreover have "?p < n" using "1.prems" by arith
      ultimately have "heap_upto n (sift_up compare (xs[?p := xs ! i, i := xs ! ?p]) ?p)"
        using False True "1.prems" by (intro "1.hyps") simp_all
      then show ?thesis using False True by (subst sift_up.simps) (simp add: Let_def)
    next
      case nc: False
      then have le: "dp (xs ! ?p) \<le> dp (xs ! i)" by (simp add: compare_dp)
      have "heap_upto n xs"
        unfolding heap_upto_def
      proof (intro allI impI)
        fix j assume j: "0 < j \<and> j < n"
        show "dp (xs ! ((j - 1) div 2)) \<le> dp (xs ! j)"
        proof (cases "j = i")
          case True
          with le show ?thesis by simp
        next
          case False
          with j "1.prems"(3) show ?thesis unfolding heap_but_up_def by blast
        qed
      qed
      then show ?thesis using False nc by (subst sift_up.simps) (simp add: Let_def)
    qed
  qed
qed

lemma sift_down_length [simp]: "length (sift_down cmp n xs i) = length xs"
proof (induction cmp n xs i rule: sift_down.induct)
  case (1 cmp n xs i)
  show ?case
    by (subst sift_down.simps) (simp add: 1 Let_def)
qed

lemma sift_down_mset: "n \<le> length xs \<Longrightarrow> mset (sift_down cmp n xs i) = mset xs"
proof (induction cmp n xs i rule: sift_down.induct)
  case (1 cmp n xs i)
  let ?l = "2 * i + 1" and ?r = "2 * i + 2"
  let ?c = "if ?r < n \<and> cmp (xs ! ?l) (xs ! ?r) then ?r else ?l"
  show ?case
  proof (cases "\<not> n \<le> ?l \<and> cmp (xs ! i) (xs ! ?c)")
    case True
    then have c: "?c < n" by auto
    have "i < ?c" by simp
    with c have cl: "?c < length xs" "i < length xs" using "1.prems" by linarith+
    have "mset (sift_down cmp n (xs[i := xs ! ?c, ?c := xs ! i]) ?c) = mset (xs[i := xs ! ?c, ?c := xs ! i])"
      using True "1.prems" by (intro "1.IH" [OF refl refl _ refl]) simp_all
    also have "\<dots> = mset xs" using cl by (simp only: mset_swap)
    finally show ?thesis using True by (subst sift_down.simps) (auto simp: Let_def)
  next
    case False
    then show ?thesis by (subst sift_down.simps) (auto simp: Let_def)
  qed
qed

lemma sift_down_beyond: "n \<le> k \<Longrightarrow> sift_down cmp n xs i ! k = xs ! k"
proof (induction cmp n xs i rule: sift_down.induct)
  case (1 cmp n xs i)
  let ?l = "2 * i + 1" and ?r = "2 * i + 2"
  let ?c = "if ?r < n \<and> cmp (xs ! ?l) (xs ! ?r) then ?r else ?l"
  show ?case
  proof (cases "\<not> n \<le> ?l \<and> cmp (xs ! i) (xs ! ?c)")
    case True
    then have "?c < n" by auto
    moreover have "i < ?c" by simp
    ultimately have c: "?c < n" "i < n" by linarith+
    have "sift_down cmp n (xs[i := xs ! ?c, ?c := xs ! i]) ?c ! k = (xs[i := xs ! ?c, ?c := xs ! i]) ! k"
      using True "1.prems" by (intro "1.IH" [OF refl refl _ refl]) simp_all
    also have "\<dots> = xs ! k" using c "1.prems" by simp
    finally show ?thesis using True by (subst sift_down.simps) (auto simp: Let_def)
  next
    case False
    then show ?thesis by (subst sift_down.simps) (auto simp: Let_def)
  qed
qed


lemma sift_down_heap:
  assumes "n \<le> length xs" "heap_but_down n xs i"
  shows "heap_upto n (sift_down compare n xs i)"
  using assms
proof (induction "compare" n xs i rule: sift_down.induct)
  case (1 n xs i)
  define l where "l = 2 * i + 1"
  define r where "r = 2 * i + 2"
  define c where "c = (if r < n \<and> compare (xs ! l) (xs ! r) then r else l)"
  have kids: "(j - 1) div 2 = i \<longleftrightarrow> j = l \<or> j = r" if "0 < j" for j
    unfolding l_def r_def using that by (rule parent_child)
  have A: "dp (xs ! ((j - 1) div 2)) \<le> dp (xs ! j)" if "0 < j" "j < n" "(j - 1) div 2 \<noteq> i" for j
    using "1.prems"(2) that unfolding heap_but_down_def by blast
  have unf: "sift_down compare n xs i =
      (if n \<le> l then xs
       else if compare (xs ! i) (xs ! c)
            then sift_down compare n (xs[i := xs ! c, c := xs ! i]) c else xs)"
    by (subst sift_down.simps) (simp add: Let_def l_def r_def c_def)
  show ?case
  proof (cases "n \<le> l")
    case True
    have "heap_upto n xs"
      unfolding heap_upto_def
    proof (intro allI impI)
      fix j assume j: "0 < j \<and> j < n"
      then have "(j - 1) div 2 \<noteq> i" using kids [of j] True by (auto simp: l_def r_def)
      with j show "dp (xs ! ((j - 1) div 2)) \<le> dp (xs ! j)" using A by blast
    qed
    with True show ?thesis by (simp add: unf)
  next
    case False
    then have ln: "l < n" by simp
    have cn: "c < n" using ln by (simp add: c_def)
    have cpar: "(c - 1) div 2 = i" "0 < c" unfolding c_def l_def r_def by auto
    have best: "dp (xs ! c) \<le> dp (xs ! j)" if "0 < j" "j < n" "(j - 1) div 2 = i" for j
    proof -
      from that kids [of j] have "j = l \<or> j = r" by simp
      then show ?thesis
        using that(2) by (auto simp: c_def compare_dp)
    qed
    show ?thesis
    proof (cases "compare (xs ! i) (xs ! c)")
      case True
      then have lt: "dp (xs ! c) < dp (xs ! i)" by (simp add: compare_dp)
      have "heap_but_down n (xs[i := xs ! c, c := xs ! i]) c"
        using "1.prems" cn cpar lt best by (intro down_step) auto
      then have "heap_upto n (sift_down compare n (xs[i := xs ! c, c := xs ! i]) c)"
        using False True "1.prems"(1)
        by (intro "1.hyps" [OF l_def [unfolded l_def] r_def [unfolded r_def] _ c_def [unfolded l_def r_def]])
           (simp_all add: c_def l_def r_def)
      with False True show ?thesis by (simp add: unf)
    next
      case nc: False
      then have le: "dp (xs ! i) \<le> dp (xs ! c)" by (simp add: compare_dp)
      have "heap_upto n xs"
        unfolding heap_upto_def
      proof (intro allI impI)
        fix j assume j: "0 < j \<and> j < n"
        show "dp (xs ! ((j - 1) div 2)) \<le> dp (xs ! j)"
        proof (cases "(j - 1) div 2 = i")
          case True
          with best [of j] j le show ?thesis by simp
        next
          case False
          with j show ?thesis using A by blast
        qed
      qed
      with False nc show ?thesis by (simp add: unf)
    qed
  qed
qed

lemma heap_front_least:
  assumes "heap_upto n xs" "i < n"
  shows "dp (xs ! 0) \<le> dp (xs ! i)"
  using assms(2)
proof (induction i rule: less_induct)
  case (less i)
  show ?case
  proof (cases "i = 0")
    case True
    then show ?thesis by simp
  next
    case False
    then have p: "(i - 1) div 2 < i" by arith
    then have "dp (xs ! 0) \<le> dp (xs ! ((i - 1) div 2))"
      using less.prems by (intro less.IH) simp_all
    moreover have "dp (xs ! ((i - 1) div 2)) \<le> dp (xs ! i)"
      using assms(1) False less.prems unfolding heap_upto_def by simp
    ultimately show ?thesis by simp
  qed
qed

lemma pop_heap_length [simp]: "length (pop_heap cmp xs) = length xs"
  by (simp add: pop_heap_def Let_def)

lemma pop_heap_mset: "mset (pop_heap cmp xs) = mset xs"
proof (cases "length xs \<le> 1")
  case True
  then show ?thesis by (simp add: pop_heap_def)
next
  case False
  then have a: "length xs - 1 < length xs" "0 < length xs" by auto
  have "mset (xs[0 := xs ! (length xs - 1), length xs - 1 := xs ! 0]) = mset xs"
    using a by (rule mset_swap)
  with False show ?thesis by (simp add: pop_heap_def Let_def sift_down_mset)
qed

lemma pop_heap_last: "xs \<noteq> [] \<Longrightarrow> pop_heap cmp xs ! (length xs - 1) = xs ! 0"
proof (cases "length xs \<le> 1")
  case True
  moreover assume "xs \<noteq> []"
  ultimately have "length xs = 1" by (cases xs) auto
  then show ?thesis by (simp add: pop_heap_def)
next
  case False
  then show ?thesis by (simp add: pop_heap_def Let_def sift_down_beyond)
qed

lemma pop_heap_heap:
  assumes "heap_upto (length xs) xs"
  shows "heap_upto (length xs - 1) (pop_heap compare xs)"
proof (cases "length xs \<le> 1")
  case True
  then show ?thesis by (simp add: heap_upto_def)
next
  case False
  define n where "n = length xs - 1"
  define ys where "ys = xs[0 := xs ! n, n := xs ! 0]"
  have n: "0 < n" "n < length xs" using False by (simp_all add: n_def)
  have yk: "ys ! k = xs ! k" if "k \<noteq> 0" "k \<noteq> n" for k
    using that by (simp add: ys_def)
  have "heap_but_down n ys 0"
    unfolding heap_but_down_def
  proof (intro conjI allI impI)
    fix j assume j: "0 < j \<and> j < n \<and> (j - 1) div 2 \<noteq> 0"
    then have "(j - 1) div 2 < n" by arith
    with j have "ys ! j = xs ! j" "ys ! ((j - 1) div 2) = xs ! ((j - 1) div 2)"
      by (simp_all add: yk)
    moreover have "dp (xs ! ((j - 1) div 2)) \<le> dp (xs ! j)"
      using assms j n unfolding heap_upto_def by simp
    ultimately show "dp (ys ! ((j - 1) div 2)) \<le> dp (ys ! j)" by simp
  qed simp
  then have "heap_upto n (sift_down compare n ys 0)"
    using n by (intro sift_down_heap) (simp_all add: ys_def)
  with False show ?thesis by (simp add: pop_heap_def Let_def n_def ys_def)
qed

lemma push_heap_length [simp]: "length (push_heap cmp xs) = length xs"
  by (simp add: push_heap_def)

lemma push_heap_mset: "mset (push_heap cmp xs) = mset xs"
  by (simp add: push_heap_def sift_up_mset)

lemma push_heap_heap:
  assumes "heap_upto (length xs - 1) xs"
  shows "heap_upto (length xs) (push_heap compare xs)"
proof (cases "xs = []")
  case True
  then show ?thesis by (simp add: push_heap_def heap_upto_def)
next
  case False
  define n where "n = length xs - 1"
  have len: "length xs = Suc n" using False by (simp add: n_def)
  have "heap_but_up (Suc n) xs n"
    unfolding heap_but_up_def
  proof (intro conjI allI impI)
    fix j assume "0 < j \<and> j < Suc n \<and> j \<noteq> n"
    then show "dp (xs ! ((j - 1) div 2)) \<le> dp (xs ! j)"
      using assms unfolding heap_upto_def n_def by simp
  next
    fix j assume j: "0 < j \<and> j < Suc n \<and> (j - 1) div 2 = n \<and> 0 < n"
    then have "(j - 1) div 2 < j" by arith
    with j have False by simp
    then show "dp (xs ! ((n - 1) div 2)) \<le> dp (xs ! j)" ..
  qed
  then have "heap_upto (Suc n) (sift_up compare xs n)"
    using len by (intro sift_up_heap) simp_all
  then have "heap_upto (length xs) (sift_up compare xs (length xs - 1))"
    by (simp only: len n_def [symmetric] diff_Suc_1)
  with False show ?thesis by (simp add: push_heap_def)
qed

subsection \<open>Offers to the cache\<close>

lemma heap_upto_update_beyond: "n \<le> k \<Longrightarrow> heap_upto n (xs[k := v]) = heap_upto n xs"
proof -
  assume k: "n \<le> k"
  have "xs[k := v] ! j = xs ! j \<and> xs[k := v] ! ((j - 1) div 2) = xs ! ((j - 1) div 2)"
    if "j < n" for j
    using that k by simp
  then show ?thesis unfolding heap_upto_def by auto
qed

lemma replace_result:
  "replace e cc =
     (compare e (hd (buffer cc)),
      cc\<lparr>TTCacheCounter := TTCacheCounter cc + 1,
         buffer := (if compare e (hd (buffer cc))
                    then push_heap compare
                           ((pop_heap compare (buffer cc))[length (buffer cc) - 1 := e])
                    else buffer cc)\<rparr>)"
  by (simp add: replace_def Let_def)

lemma replace_success:
  assumes ne: "xs \<noteq> []" and hp: "is_heap compare xs"
  shows "length (push_heap compare ((pop_heap compare xs)[length xs - 1 := e])) = length xs"
    and "mset (push_heap compare ((pop_heap compare xs)[length xs - 1 := e])) =
           add_mset e (mset xs - {#hd xs#})"
    and "is_heap compare (push_heap compare ((pop_heap compare xs)[length xs - 1 := e]))"
proof -
  define ys where "ys = push_heap compare ((pop_heap compare xs)[length xs - 1 := e])"
  define n where "n = length xs - 1"
  define b1 where "b1 = pop_heap compare xs"
  define b2 where "b2 = b1[n := e]"
  have ys: "ys = push_heap compare b2" by (simp add: ys_def b2_def b1_def n_def)
  have n: "n < length xs" using ne by (simp add: n_def)
  have l1: "length b1 = length xs" by (simp add: b1_def)
  have last: "b1 ! n = hd xs"
    using pop_heap_last [OF ne, of compare] ne by (simp add: b1_def n_def hd_conv_nth)
  have h1: "heap_upto n b1"
    using pop_heap_heap [of xs] hp by (simp add: is_heap_upto b1_def n_def)
  then have "heap_upto n b2"
    by (simp add: b2_def heap_upto_update_beyond)
  moreover have "length b2 - 1 = n" by (simp add: b2_def l1 n_def)
  ultimately have h2: "heap_upto (length b2 - 1) b2" by simp
  have "length ys = length xs" by (simp add: ys b2_def l1)
  then show "length (push_heap compare ((pop_heap compare xs)[length xs - 1 := e])) = length xs"
    by (simp only: ys_def)
  have "mset b2 = add_mset e (mset b1 - {#b1 ! n#})"
    unfolding b2_def using n l1 by (simp add: mset_update)
  then have "mset ys = add_mset e (mset xs - {#hd xs#})"
    by (simp add: ys push_heap_mset last) (simp add: b1_def pop_heap_mset)
  then show "mset (push_heap compare ((pop_heap compare xs)[length xs - 1 := e])) =
           add_mset e (mset xs - {#hd xs#})"
    by (simp only: ys_def)
  have "is_heap compare ys"
    using push_heap_heap [OF h2] by (simp add: is_heap_upto ys)
  then show "is_heap compare (push_heap compare ((pop_heap compare xs)[length xs - 1 := e]))"
    by (simp only: ys_def)
qed

lemma heap_front_shallowest:
  assumes "is_heap compare xs" "x \<in> set xs"
  shows "dp (hd xs) \<le> dp x"
proof -
  from assms(2) obtain i where i: "i < length xs" "x = xs ! i" by (auto simp: in_set_conv_nth)
  then have "xs \<noteq> []" by auto
  then have "hd xs = xs ! 0" by (simp add: hd_conv_nth)
  with heap_front_least [of "length xs" xs i] assms(1) i show ?thesis
    by (simp add: is_heap_upto)
qed

text \<open>
  C2: on a cache whose array is a heap with at least one cell, \<^verbatim>\<open>replace(e)\<close> increments
  \<^verbatim>\<open>TTCacheCounter\<close> by one whatever the outcome; \<^verbatim>\<open>front()\<close> is the shallowest entry held;
  the call returns true exactly when the depth of \<open>e\<close> is strictly greater than the depth of
  \<^verbatim>\<open>front()\<close>; then the entries held are the old ones without \<^verbatim>\<open>front()\<close> and with \<open>e\<close>, as
  many as before, and the array is a heap again; otherwise the array is unchanged. With one
  cell, the call succeeds exactly when \<open>e\<close> is deeper than the entry held, and then holds \<open>e\<close>.
\<close>

theorem replace_outcome:
  assumes "buffer cc \<noteq> []" and "is_heap compare (buffer cc)"
  shows "TTCacheCounter (snd (replace e cc)) = TTCacheCounter cc + 1 \<and>
     (\<forall>x\<in>set (buffer cc). tte_depth (snd (hd (buffer cc))) \<le> tte_depth (snd x)) \<and>
     (fst (replace e cc) \<longleftrightarrow> tte_depth (snd e) > tte_depth (snd (hd (buffer cc)))) \<and>
     (if fst (replace e cc)
      then mset (buffer (snd (replace e cc))) = add_mset e (mset (buffer cc) - {#hd (buffer cc)#}) \<and>
           length (buffer (snd (replace e cc))) = length (buffer cc) \<and>
           is_heap compare (buffer (snd (replace e cc)))
      else buffer (snd (replace e cc)) = buffer cc) \<and>
     (length (buffer cc) = 1 \<longrightarrow>
        (fst (replace e cc) \<longleftrightarrow> tte_depth (snd e) > tte_depth (snd (buffer cc ! 0))) \<and>
        buffer (snd (replace e cc)) = (if fst (replace e cc) then [e] else buffer cc))"
proof -
  note s = replace_success [OF assms, of e]
  have front: "\<forall>x\<in>set (buffer cc). tte_depth (snd (hd (buffer cc))) \<le> tte_depth (snd x)"
    using heap_front_shallowest [OF assms(2)] by (simp add: dp_def)
  have one: "buffer (snd (replace e cc)) = (if fst (replace e cc) then [e] else buffer cc)"
    if "length (buffer cc) = 1"
  proof -
    from that obtain x where x: "buffer cc = [x]" by (cases "buffer cc") auto
    have "mset (push_heap compare ((pop_heap compare [x])[0 := e])) = {#e#}"
      using s(2) by (simp add: x)
    then have "push_heap compare ((pop_heap compare [x])[0 := e]) = [e]"
      by (metis mset.simps(1) mset.simps(2) mset_eq_setD mset_single_iff_right)
    then show ?thesis by (simp add: replace_result x)
  qed
  show ?thesis
    using front s one assms(1)
    by (simp add: replace_result compare_def hd_conv_nth)
qed

theorem replace_outcome_witness:
  "buffer full_cache \<noteq> [] \<and> is_heap compare (buffer full_cache) \<and>
   fst (replace (entry 4 6) full_cache) \<and>
   buffer (snd (replace (entry 4 6) full_cache)) = [entry 4 6, entry 2 9, entry 3 7] \<and>
   \<not> fst (replace (entry 4 5) full_cache) \<and>
   buffer (snd (replace (entry 4 5) full_cache)) = buffer full_cache \<and>
   TTCacheCounter (snd (replace (entry 4 5) full_cache)) = 1 \<and>
   length (buffer one_cell) = 1 \<and> is_heap compare (buffer one_cell) \<and>
   fst (replace (entry 2 6) one_cell) \<and>
   buffer (snd (replace (entry 2 6) one_cell)) = [entry 2 6] \<and>
   \<not> fst (replace (entry 2 5) one_cell)"
proof -
  have ne: "buffer full_cache \<noteq> []" by (simp add: full_cache_def)
  have hp: "is_heap compare (buffer full_cache)" by code_simp
  have c: "TTCacheCounter full_cache = 0" by (simp add: full_cache_def ClusterCache_init_def)
  have a: "TTCacheCounter (snd (replace (entry 4 5) full_cache)) = 1"
    using replace_outcome [OF ne hp, of "entry 4 5"] c by simp
  have b: "fst (replace (entry 4 6) full_cache)" by code_simp
  have d: "buffer (snd (replace (entry 4 6) full_cache)) = [entry 4 6, entry 2 9, entry 3 7]"
    by code_simp
  have e: "\<not> fst (replace (entry 4 5) full_cache)" by code_simp
  have f: "buffer (snd (replace (entry 4 5) full_cache)) = buffer full_cache" by code_simp
  have ne1: "buffer one_cell \<noteq> []" and l1: "length (buffer one_cell) = 1"
    by (simp_all add: one_cell_def)
  have hp1: "is_heap compare (buffer one_cell)" by code_simp
  have g: "fst (replace (entry 2 6) one_cell)" by code_simp
  have h: "buffer (snd (replace (entry 2 6) one_cell)) = [entry 2 6]"
    using replace_outcome [OF ne1 hp1, of "entry 2 6"] l1 g by simp
  have i: "\<not> fst (replace (entry 2 5) one_cell)" by code_simp
  show ?thesis using ne hp a b d e f l1 hp1 g h i by simp
qed

lemma replace_keeps_deepest:
  assumes ne: "buffer cc \<noteq> []" and hp: "is_heap compare (buffer cc)"
      and split: "seen = mset (buffer cc) + dropped"
      and low: "\<forall>x\<in>#dropped. \<forall>h\<in>set (buffer cc). dp x \<le> dp h"
  shows "\<exists>dropped'. add_mset v seen = mset (buffer (snd (replace v cc))) + dropped' \<and>
           (\<forall>x\<in>#dropped'. \<forall>h\<in>set (buffer (snd (replace v cc))). dp x \<le> dp h)"
proof (cases "compare v (hd (buffer cc))")
  case True
  define f where "f = hd (buffer cc)"
  define B' where "B' = buffer (snd (replace v cc))"
  have fB: "f \<in># mset (buffer cc)" using ne by (simp add: f_def)
  have front: "dp f \<le> dp h" if "h \<in> set (buffer cc)" for h
    using heap_front_shallowest [OF hp that] by (simp add: f_def)
  have fv: "dp f < dp v" using True by (simp add: compare_dp f_def)
  have mB': "mset B' = add_mset v (mset (buffer cc) - {#f#})"
    using replace_success(2) [OF ne hp, of v] True by (simp add: B'_def replace_result f_def)
  have sub: "h \<in> set (buffer cc) \<or> h = v" if "h \<in> set B'" for h
  proof -
    from that have "h \<in># mset B'" by simp
    then have "h = v \<or> h \<in># mset (buffer cc) - {#f#}" unfolding mB' by simp
    then show ?thesis by (auto dest: in_diffD)
  qed
  have "add_mset v seen = mset B' + add_mset f dropped"
    unfolding mB' split using fB by simp
  moreover have "\<forall>x\<in>#add_mset f dropped. \<forall>h\<in>set B'. dp x \<le> dp h"
  proof (intro ballI)
    fix x h assume x: "x \<in># add_mset f dropped" and h: "h \<in> set B'"
    have xf: "dp x \<le> dp f"
    proof (cases "x = f")
      case True then show ?thesis by simp
    next
      case False
      with x have "x \<in># dropped" by simp
      moreover have "f \<in> set (buffer cc)" using fB by simp
      ultimately show ?thesis using low by blast
    qed
    from sub [OF h] show "dp x \<le> dp h"
    proof
      assume "h \<in> set (buffer cc)"
      then show ?thesis using front [of h] xf by simp
    next
      assume "h = v"
      then show ?thesis using fv xf by simp
    qed
  qed
  ultimately show ?thesis unfolding B'_def by blast
next
  case False
  then have vf: "dp v \<le> dp (hd (buffer cc))" by (simp add: compare_dp)
  have same: "buffer (snd (replace v cc)) = buffer cc"
    using False by (simp add: replace_result)
  have "add_mset v seen = mset (buffer cc) + add_mset v dropped"
    unfolding split by simp
  moreover have "\<forall>x\<in>#add_mset v dropped. \<forall>h\<in>set (buffer cc). dp x \<le> dp h"
  proof (intro ballI)
    fix x h assume x: "x \<in># add_mset v dropped" and h: "h \<in> set (buffer cc)"
    show "dp x \<le> dp h"
    proof (cases "x = v")
      case True
      with vf heap_front_shallowest [OF hp h] show ?thesis by simp
    next
      case False
      with x have "x \<in># dropped" by simp
      with low h show ?thesis by blast
    qed
  qed
  ultimately show ?thesis unfolding same by blast
qed

lemma replace_keeps_heap:
  assumes "buffer cc \<noteq> []" and "is_heap compare (buffer cc)"
  shows "length (buffer (snd (replace v cc))) = length (buffer cc) \<and>
         is_heap compare (buffer (snd (replace v cc)))"
  using assms replace_success [OF assms, of v] by (simp add: replace_result)

lemma replace_all_invariant:
  assumes "buffer cc \<noteq> []" and "is_heap compare (buffer cc)"
      and "seen = mset (buffer cc) + dropped"
      and "\<forall>x\<in>#dropped. \<forall>h\<in>set (buffer cc). dp x \<le> dp h"
  shows "length (fst (replace_all vs cc)) = length vs \<and>
         length (buffer (snd (replace_all vs cc))) = length (buffer cc) \<and>
         is_heap compare (buffer (snd (replace_all vs cc))) \<and>
         (\<exists>dropped'. seen + mset vs = mset (buffer (snd (replace_all vs cc))) + dropped' \<and>
            (\<forall>x\<in>#dropped'. \<forall>h\<in>set (buffer (snd (replace_all vs cc))). dp x \<le> dp h)) \<and>
         TTCacheCounter (snd (replace_all vs cc)) = TTCacheCounter cc + of_nat (length vs)"
  using assms
proof (induction vs arbitrary: cc seen dropped)
  case Nil
  then show ?case by auto
next
  case (Cons v vs)
  define cc1 where "cc1 = snd (replace v cc)"
  have h1: "length (buffer cc1) = length (buffer cc)" "is_heap compare (buffer cc1)"
    using replace_keeps_heap [OF Cons.prems(1,2), of v] by (simp_all add: cc1_def)
  then have ne1: "buffer cc1 \<noteq> []" using Cons.prems(1) by auto
  obtain d1 where d1: "add_mset v seen = mset (buffer cc1) + d1"
      "\<forall>x\<in>#d1. \<forall>h\<in>set (buffer cc1). dp x \<le> dp h"
    using replace_keeps_deepest [OF Cons.prems, of v] unfolding cc1_def by blast
  have c1: "TTCacheCounter cc1 = TTCacheCounter cc + 1"
    by (simp add: cc1_def replace_result)
  have step: "replace_all (v # vs) cc =
      (fst (replace v cc) # fst (replace_all vs cc1), snd (replace_all vs cc1))"
    by (simp add: cc1_def case_prod_beta)
  have "add_mset v seen + mset vs = seen + mset (v # vs)" by simp
  then show ?case
    using Cons.IH [OF ne1 h1(2) d1] h1(1) c1 unfolding step by (simp add: add.assoc)
qed

lemma replace_all_first:
  assumes "buffer cc \<noteq> []" and "is_heap compare (buffer cc)"
      and "j \<le> size (filter_mset (\<lambda>x. dp x \<le> d0) (mset (buffer cc)))"
      and "\<forall>v\<in>set vs. d0 < dp v"
  shows "\<forall>i<min j (length vs). fst (replace_all vs cc) ! i"
  using assms
proof (induction vs arbitrary: cc j)
  case Nil
  then show ?case by simp
next
  case (Cons v vs)
  show ?case
  proof (cases j)
    case 0
    then show ?thesis by simp
  next
    case (Suc j')
    define f where "f = hd (buffer cc)"
    define cc1 where "cc1 = snd (replace v cc)"
    have "0 < size (filter_mset (\<lambda>x. dp x \<le> d0) (mset (buffer cc)))"
      using Cons.prems(3) Suc by simp
    then have "filter_mset (\<lambda>x. dp x \<le> d0) (mset (buffer cc)) \<noteq> {#}"
      by (simp only: nonempty_has_size)
    then obtain x where x: "x \<in> set (buffer cc)" "dp x \<le> d0"
      unfolding filter_mset_eq_mempty_iff by auto
    have fd: "dp f \<le> d0"
      using heap_front_shallowest [OF Cons.prems(2) x(1)] x(2) by (simp add: f_def)
    have fv: "dp f < dp v" using fd Cons.prems(4) by auto
    then have ok: "compare v (hd (buffer cc))" by (simp add: compare_dp f_def)
    have fB: "f \<in># mset (buffer cc)" using Cons.prems(1) by (simp add: f_def)
    have mB: "mset (buffer cc1) = add_mset v (mset (buffer cc) - {#f#})"
      using replace_success(2) [OF Cons.prems(1,2), of v] ok
      by (simp add: cc1_def replace_result f_def)
    have "filter_mset (\<lambda>x. dp x \<le> d0) (mset (buffer cc1)) =
          filter_mset (\<lambda>x. dp x \<le> d0) (mset (buffer cc)) - {#f#}"
      unfolding mB using fv fd Cons.prems(4) by auto
    moreover have "f \<in># filter_mset (\<lambda>x. dp x \<le> d0) (mset (buffer cc))"
      using fB fd by simp
    ultimately have "size (filter_mset (\<lambda>x. dp x \<le> d0) (mset (buffer cc1))) =
          size (filter_mset (\<lambda>x. dp x \<le> d0) (mset (buffer cc))) - 1"
      by (simp add: size_Diff_singleton)
    then have j': "j' \<le> size (filter_mset (\<lambda>x. dp x \<le> d0) (mset (buffer cc1)))"
      using Cons.prems(3) Suc by simp
    have h1: "buffer cc1 \<noteq> []" "is_heap compare (buffer cc1)"
      using replace_keeps_heap [OF Cons.prems(1,2), of v] Cons.prems(1)
      by (auto simp: cc1_def)
    have IH: "\<forall>i<min j' (length vs). fst (replace_all vs cc1) ! i"
      using Cons.prems(4) by (intro Cons.IH [OF h1 j']) simp
    have step: "fst (replace_all (v # vs) cc) = True # fst (replace_all vs cc1)"
      using ok by (simp add: cc1_def case_prod_beta replace_result)
    show ?thesis
      unfolding step Suc using IH by (auto simp: nth_Cons split: nat.splits)
  qed
qed

lemma is_heap_replicate: "is_heap compare (replicate n x)"
proof -
  have "dp (replicate n x ! ((j - 1) div 2)) \<le> dp (replicate n x ! j)"
    if "0 < j \<and> j < n" for j
  proof -
    from that have "(j - 1) div 2 < n" by arith
    with that show ?thesis by simp
  qed
  then show ?thesis unfolding is_heap_upto heap_upto_def length_replicate by blast
qed

lemma filter_replicate_all: "P x \<Longrightarrow> filter_mset P (replicate_mset n x) = replicate_mset n x"
  by (induction n) simp_all

lemma no_sentinel_left:
  fixes dp :: "'a \<Rightarrow> int"
  assumes split: "replicate_mset C S + V = H + D"
      and sizeH: "size H = C"
      and low: "\<forall>x\<in>#D. \<forall>h\<in>#H. dp x \<le> dp h"
      and deep: "\<forall>v\<in>#V. dp S < dp v"
      and many: "C \<le> size V"
  shows "\<exists>D'. V = H + D' \<and> (\<forall>x\<in>#D'. \<forall>h\<in>#H. dp x \<le> dp h)"
proof -
  have SV: "S \<notin># V" using deep by auto
  have sizeD: "size D = size V"
  proof -
    have "size (replicate_mset C S + V) = size (H + D)" by (simp only: split)
    then show ?thesis by (simp add: sizeH)
  qed
  have SH: "S \<notin># H"
  proof
    assume in_H: "S \<in># H"
    have allS: "x = S" if "x \<in># D" for x
    proof -
      from that low in_H have le: "dp x \<le> dp S" by blast
      from that have "x \<in># replicate_mset C S + V" by (simp add: split)
      then have "x = S \<or> x \<in># V" by (auto split: if_splits)
      with le deep show ?thesis by force
    qed
    have "D = replicate_mset (size D) S"
    proof (rule multiset_eqI)
      fix x
      show "count D x = count (replicate_mset (size D) S) x"
      proof (cases "x = S")
        case True
        have "filter_mset (\<lambda>y. y = S) D = D"
          using allS by (simp add: filter_mset_eq_conv)
        then have "size D = count D S"
          by (metis filter_eq_replicate_mset size_replicate_mset)
        with True show ?thesis by simp
      next
        case False
        with allS have "x \<notin># D" by blast
        with False show ?thesis by (simp add: not_in_iff)
      qed
    qed
    then have cD: "count D S = size D" by (metis count_replicate_mset)
    have "count (replicate_mset C S + V) S = count (H + D) S" by (simp only: split)
    moreover have "count V S = 0" using SV by (simp add: not_in_iff)
    ultimately have "C = count H S + size D" using cD by simp
    moreover have "0 < count H S" using in_H by simp
    ultimately show False using sizeD many by simp
  qed
  have sub: "H \<subseteq># V"
  proof (rule mset_subset_eqI)
    fix x
    have c: "count (replicate_mset C S + V) x = count (H + D) x" by (simp only: split)
    show "count H x \<le> count V x"
    proof (cases "x = S")
      case True
      with SH show ?thesis by (simp add: not_in_iff)
    next
      case False
      with c show ?thesis by simp
    qed
  qed
  define D' where "D' = V - H"
  have V: "V = H + D'" using sub by (simp add: D'_def)
  have "replicate_mset C S + (H + D') = H + D" using split V by simp
  then have "D = replicate_mset C S + D'" by (simp add: ac_simps)
  then have "\<forall>x\<in>#D'. x \<in># D" by simp
  with low have "\<forall>x\<in>#D'. \<forall>h\<in>#H. dp x \<le> dp h" by blast
  with V show ?thesis by blast
qed

text \<open>
  C3: after any sequence \<open>vs\<close> of offers to a cache flushed to \<^verbatim>\<open>TTCacheSize\<close> sentinel
  entries (so after each call of a longer sequence): the array holds \<^verbatim>\<open>TTCacheSize\<close> entries
  and is a heap, \<^verbatim>\<open>front()\<close> is the shallowest of them; the sentinels and the offers together
  are the entries held plus entries that were dropped, and nothing dropped is deeper than
  anything held; \<^verbatim>\<open>TTCacheCounter\<close> has counted every offer. When every offer is deeper than
  the sentinel, the first \<^verbatim>\<open>TTCacheSize\<close> offers all succeed, and from \<^verbatim>\<open>TTCacheSize\<close>
  offers on the entries held are offers only: the deepest \<^verbatim>\<open>TTCacheSize\<close> of them.
\<close>

theorem replace_all_deepest:
  assumes "0 < TTCacheSize" and "buffer cc = replicate TTCacheSize KeyedTTEntry_init"
  shows "length (fst (replace_all vs cc)) = length vs \<and>
     length (buffer (snd (replace_all vs cc))) = TTCacheSize \<and>
     is_heap compare (buffer (snd (replace_all vs cc))) \<and>
     (\<forall>h\<in>set (buffer (snd (replace_all vs cc))).
        tte_depth (snd (hd (buffer (snd (replace_all vs cc))))) \<le> tte_depth (snd h)) \<and>
     (\<exists>dropped.
        mset (replicate TTCacheSize KeyedTTEntry_init @ vs) =
          mset (buffer (snd (replace_all vs cc))) + dropped \<and>
        (\<forall>x\<in>#dropped. \<forall>h\<in>set (buffer (snd (replace_all vs cc))).
           tte_depth (snd x) \<le> tte_depth (snd h))) \<and>
     TTCacheCounter (snd (replace_all vs cc)) = TTCacheCounter cc + of_nat (length vs) \<and>
     ((\<forall>v\<in>set vs. tte_depth (snd KeyedTTEntry_init) < tte_depth (snd v)) \<longrightarrow>
        (\<forall>i<min TTCacheSize (length vs). fst (replace_all vs cc) ! i) \<and>
        (TTCacheSize \<le> length vs \<longrightarrow>
           (\<exists>dropped.
              mset vs = mset (buffer (snd (replace_all vs cc))) + dropped \<and>
              (\<forall>x\<in>#dropped. \<forall>h\<in>set (buffer (snd (replace_all vs cc))).
                 tte_depth (snd x) \<le> tte_depth (snd h)))))"
proof -
  have ne: "buffer cc \<noteq> []" using assms by auto
  have hp: "is_heap compare (buffer cc)" by (simp add: assms(2) is_heap_replicate)
  have seen: "mset (replicate TTCacheSize KeyedTTEntry_init) = mset (buffer cc) + {#}"
    by (simp add: assms(2))
  have low: "\<forall>x\<in>#{#}. \<forall>h\<in>set (buffer cc). dp x \<le> dp h" by simp
  note inv = replace_all_invariant [OF ne hp seen low, of vs]
  have front: "\<forall>h\<in>set (buffer (snd (replace_all vs cc))).
        dp (hd (buffer (snd (replace_all vs cc)))) \<le> dp h"
    using inv heap_front_shallowest by blast
  have j: "TTCacheSize \<le> size (filter_mset (\<lambda>x. dp x \<le> dp KeyedTTEntry_init) (mset (buffer cc)))"
    by (simp add: assms(2) filter_replicate_all)
  have first: "\<forall>i<min TTCacheSize (length vs). fst (replace_all vs cc) ! i"
    if "\<forall>v\<in>set vs. dp KeyedTTEntry_init < dp v"
    using replace_all_first [OF ne hp j that] .
  have offers_only: "\<exists>dropped.
        mset vs = mset (buffer (snd (replace_all vs cc))) + dropped \<and>
        (\<forall>x\<in>#dropped. \<forall>h\<in>set (buffer (snd (replace_all vs cc))). dp x \<le> dp h)"
    if deep: "\<forall>v\<in>set vs. dp KeyedTTEntry_init < dp v" and many: "TTCacheSize \<le> length vs"
  proof -
    from inv obtain D where D:
      "mset (replicate TTCacheSize KeyedTTEntry_init) + mset vs =
         mset (buffer (snd (replace_all vs cc))) + D"
      "\<forall>x\<in>#D. \<forall>h\<in>set (buffer (snd (replace_all vs cc))). dp x \<le> dp h"
      by blast
    have sz: "size (mset (buffer (snd (replace_all vs cc)))) = TTCacheSize"
      using inv assms(2) by simp
    show ?thesis
      using no_sentinel_left [of TTCacheSize KeyedTTEntry_init "mset vs"
          "mset (buffer (snd (replace_all vs cc)))" D dp] D sz deep many
      by simp
  qed
  show ?thesis
    using inv front first offers_only assms(2) by (simp add: dp_def)
qed

theorem replace_all_deepest_witness:
  "(0 :: nat) < 3 \<and> buffer (ClusterCache_init 3 1) = replicate 3 KeyedTTEntry_init \<and>
   list_all (\<lambda>v. tte_depth (snd KeyedTTEntry_init) < tte_depth (snd v)) offers \<and>
   3 \<le> length offers \<and>
   length (buffer (snd (replace_all offers (ClusterCache_init 3 1)))) = 3 \<and>
   fst (replace_all offers (ClusterCache_init 3 1)) ! 0 \<and>
   fst (replace_all offers (ClusterCache_init 3 1)) = [True, True, True, True, False, True] \<and>
   buffer (snd (replace_all offers (ClusterCache_init 3 1))) =
     [entry 3 7, entry 2 9, entry 6 10] \<and>
   TTCacheCounter (snd (replace_all offers (ClusterCache_init 3 1))) = 6"
proof -
  have p: "(0 :: nat) < 3" by simp
  have q: "buffer (ClusterCache_init 3 1) = replicate 3 KeyedTTEntry_init"
    by (simp add: ClusterCache_init_def)
  have deep: "list_all (\<lambda>v. tte_depth (snd KeyedTTEntry_init) < tte_depth (snd v)) offers"
    by code_simp
  have many: "3 \<le> length offers" by (simp add: offers_def)
  have a: "length (buffer (snd (replace_all offers (ClusterCache_init 3 1)))) = 3"
    using replace_all_deepest [OF p q, of offers] by simp
  have "\<forall>i<min 3 (length offers). fst (replace_all offers (ClusterCache_init 3 1)) ! i"
    using replace_all_deepest [OF p q, of offers] deep by (simp add: list_all_iff)
  then have z: "fst (replace_all offers (ClusterCache_init 3 1)) ! 0"
    using many by simp
  have b: "fst (replace_all offers (ClusterCache_init 3 1)) = [True, True, True, True, False, True]"
    by code_simp
  have c: "buffer (snd (replace_all offers (ClusterCache_init 3 1))) =
     [entry 3 7, entry 2 9, entry 6 10]"
    by code_simp
  have d: "TTCacheCounter (snd (replace_all offers (ClusterCache_init 3 1))) = 6"
    by code_simp
  show ?thesis using p q deep many a z b c d by simp
qed

end
